theory Spec2Isabelle
  imports Main "HOL-Library.Multiset"
begin

section \<open>Data model\<close>

text \<open>
  A \<open>Point<Dim>\<close> is a tuple of \<open>Dim\<close> coordinates. The class itself is not part of
  the sources at hand; the coordinates are taken to be integers (the colour channels of
  \<open>maptiles.cpp\<close> are). The source accumulates distances in \<open>double\<close> and squares the
  split distance in a 32-bit \<open>int\<close>; the model computes both in \<open>int\<close>, which agrees with
  the source while two coordinates differ by at most 46340 (colour channels differ by at
  most 255). The template parameter \<open>Dim\<close> is the argument \<open>D\<close> of every function that
  mentions it.

  Indices are C++ \<open>int\<close>s and are modelled by \<open>int\<close>: every index the reachable
  calls compute lies between \<open>-1\<close> and twice the size of the vector, so the model is
  exact for vectors of at most \<open>2^30\<close> points.
\<close>

type_synonym point = "int list"

text \<open>
  Reading outside a \<open>std::vector\<close> or outside the coordinates of a point is
  undefined behaviour in the source. The model stops there and reports the index.
\<close>

datatype error = VectorIndex int | PointIndex int

text \<open>Integer division and remainder of C++: the quotient is truncated towards zero.\<close>

definition int_div :: "int \<Rightarrow> int \<Rightarrow> int" where
  "int_div a b = sgn a * sgn b * (\<bar>a\<bar> div \<bar>b\<bar>)"

definition int_rem :: "int \<Rightarrow> int \<Rightarrow> int" where
  "int_rem a b = a - b * int_div a b"

text \<open>\<open>list[i]\<close> on a \<open>std::vector\<close>, as a read.\<close>

definition at :: "'a list \<Rightarrow> int \<Rightarrow> error + 'a" where
  "at list i = (if 0 \<le> i \<and> i < int (length list) then Inr (list ! nat i) else Inl (VectorIndex i))"

text \<open>\<open>std::swap(list[i], list[j])\<close>.\<close>

definition swap :: "'a list \<Rightarrow> int \<Rightarrow> int \<Rightarrow> error + 'a list" where
  "swap list i j =
     (if \<not> (0 \<le> i \<and> i < int (length list)) then Inl (VectorIndex i)
      else if \<not> (0 \<le> j \<and> j < int (length list)) then Inl (VectorIndex j)
      else Inr (list[nat i := list ! nat j, nat j := list ! nat i]))"

text \<open>
  Modelled from the spec: \<open>Point<Dim>::operator[]\<close>, \<open>operator<\<close> and \<open>operator==\<close>
  are not in the sources. The spec gives a point \<open>D\<close> coordinates, equality on all of
  them (the equality of lists here) and the lexicographic order, dimension 0 first.
\<close>

definition coord :: "nat \<Rightarrow> point \<Rightarrow> int \<Rightarrow> error + int" where
  "coord D p i = (if 0 \<le> i \<and> i < int D then Inr (p ! nat i) else Inl (PointIndex i))"

fun point_less :: "point \<Rightarrow> point \<Rightarrow> bool" where
  "point_less (x # xs) (y # ys) = (x < y \<or> (x = y \<and> point_less xs ys))"
| "point_less _ _ = False"

section \<open>Comparison policy (kdtree.cpp)\<close>

text \<open>
  \<open>smallerDimVal\<close>: the guard tests \<open>curDim >= Dim\<close> twice and nothing else, so a
  negative \<open>curDim\<close> reaches the coordinate reads.
\<close>

definition smallerDimVal :: "nat \<Rightarrow> point \<Rightarrow> point \<Rightarrow> int \<Rightarrow> error + bool" where
  "smallerDimVal D first second curDim =
     (if curDim \<ge> int D \<or> curDim \<ge> int D then Inr False
      else
        (case coord D first curDim of Inl e \<Rightarrow> Inl e | Inr a \<Rightarrow>
        (case coord D second curDim of Inl e \<Rightarrow> Inl e | Inr b \<Rightarrow>
           if a < b then Inr True
           else if a = b then Inr (point_less first second)
           else Inr False)))"

text \<open>The lines \<open>smallerDimVal\<close> writes to \<open>cout\<close>.\<close>

definition smallerDimVal_log :: "nat \<Rightarrow> int \<Rightarrow> string list" where
  "smallerDimVal_log D curDim =
     (if curDim \<ge> int D \<or> curDim \<ge> int D
      then [''[smallerDimVal] ERROR: curDim is bigger than dimension'']
      else [])"

text \<open>
  \<open>distanceSquared\<close>: the loop over \<open>i = 0 .. Dim - 1\<close>, accumulating in \<open>d\<close>. These
  indices are the coordinates of a point, so the reads \<open>a[i]\<close> and \<open>b[i]\<close> cannot fail.
\<close>

definition distanceSquared :: "nat \<Rightarrow> point \<Rightarrow> point \<Rightarrow> int" where
  "distanceSquared D a b =
     fold (\<lambda>i d. d + (a ! i - b ! i) * (a ! i - b ! i)) [0..<D] 0"

definition shouldReplace :: "nat \<Rightarrow> point \<Rightarrow> point \<Rightarrow> point \<Rightarrow> bool" where
  "shouldReplace D target currentBest potential =
     (if currentBest = potential then True
      else
        let currDistance = distanceSquared D target currentBest;
            potDistance = distanceSquared D target potential
        in if potDistance < currDistance then True
           else if potDistance = currDistance then point_less potential currentBest
           else False)"

section \<open>Partition engine and tree builder (kdtree.cpp)\<close>

text \<open>The \<open>for\<close> loop of \<open>partition\<close>, from \<open>i\<close> with the store cursor at \<open>storeIndex\<close>.\<close>

function partition_loop ::
  "nat \<Rightarrow> point list \<Rightarrow> point \<Rightarrow> int \<Rightarrow> int \<Rightarrow> int \<Rightarrow> int \<Rightarrow> error + (point list \<times> int)" where
  "partition_loop D list pivotValue dim high i storeIndex =
     (if i < high then
        (case at list i of Inl e \<Rightarrow> Inl e | Inr x \<Rightarrow>
        (case smallerDimVal D x pivotValue dim of Inl e \<Rightarrow> Inl e | Inr b \<Rightarrow>
           if b then
             (case swap list i storeIndex of Inl e \<Rightarrow> Inl e | Inr list' \<Rightarrow>
                partition_loop D list' pivotValue dim high (i + 1) (storeIndex + 1))
           else partition_loop D list pivotValue dim high (i + 1) storeIndex))
      else Inr (list, storeIndex))"
  by pat_completeness auto
termination
  by (relation "measure (\<lambda>(D, list, pivotValue, dim, high, i, storeIndex). nat (high - i))") auto

declare partition_loop.simps [simp del]

text \<open>\<open>partition\<close> (named \<open>partition_vec\<close> here: \<open>partition\<close> is a list function of HOL).\<close>

definition partition_vec ::
  "nat \<Rightarrow> point list \<Rightarrow> int \<Rightarrow> int \<Rightarrow> int \<Rightarrow> int \<Rightarrow> error + (point list \<times> int)" where
  "partition_vec D list low high pivotIndex dim =
     (case at list pivotIndex of Inl e \<Rightarrow> Inl e | Inr pivotValue \<Rightarrow>
     (case swap list pivotIndex high of Inl e \<Rightarrow> Inl e | Inr list1 \<Rightarrow>
     (case partition_loop D list1 pivotValue dim high low low of Inl e \<Rightarrow> Inl e
      | Inr (list2, storeIndex) \<Rightarrow>
     (case swap list2 high storeIndex of Inl e \<Rightarrow> Inl e | Inr list3 \<Rightarrow>
        Inr (list3, storeIndex)))))"

text \<open>
  \<open>select\<close> and \<open>construct\<close> recurse with no decreasing guard of their own (outside
  their intended arguments \<open>select\<close> can call itself forever), so they are partial
  functions: \<open>None\<close> is a run that does not return.
\<close>

partial_function (option) select ::
  "nat \<Rightarrow> point list \<Rightarrow> int \<Rightarrow> int \<Rightarrow> int \<Rightarrow> int \<Rightarrow> (error + point list) option" where
  "select D list low high n dim =
     (if low = high then Some (Inr list)
      else
        (case partition_vec D list low high n dim of Inl e \<Rightarrow> Some (Inl e)
         | Inr (list', pivotIndex) \<Rightarrow>
             if n = pivotIndex then Some (Inr list')
             else if n < pivotIndex then select D list' low (pivotIndex - 1) n dim
             else select D list' (pivotIndex + 1) high n dim))"

partial_function (option) construct ::
  "nat \<Rightarrow> point list \<Rightarrow> int \<Rightarrow> int \<Rightarrow> int \<Rightarrow> int \<Rightarrow> (error + point list) option" where
  "construct D list low high n dim =
     (if low \<ge> high then Some (Inr list)
      else
        Option.bind (select D list low high n dim) (\<lambda>r1.
        (case r1 of Inl e \<Rightarrow> Some (Inl e) | Inr list1 \<Rightarrow>
           Option.bind
             (construct D list1 low (n - 1) (int_div (low + n - 1) 2) (int_rem (dim + 1) (int D)))
             (\<lambda>r2.
        (case r2 of Inl e \<Rightarrow> Some (Inl e) | Inr list2 \<Rightarrow>
           construct D list2 (n + 1) high (int_div (n + 1 + high) 2) (int_rem (dim + 1) (int D)))))))"

declare select.simps [code]
declare construct.simps [code]

text \<open>
  The constructor. A tree is its member vector \<open>points\<close>; on an empty input the
  constructor returns at once and \<open>points\<close> stays empty.
\<close>

definition KDTree :: "nat \<Rightarrow> point list \<Rightarrow> (error + point list) option" where
  "KDTree D newPoints =
     (if length newPoints = 0 then Some (Inr [])
      else
        let points = newPoints;
            lo = 0;
            hi = int (length newPoints) - 1;
            piv = int_div (lo + hi) 2
        in construct D points lo hi piv 0)"

section \<open>Nearest-neighbour search (kdtree.cpp)\<close>

text \<open>
  \<open>nearestIndex\<close>. The search never writes \<open>points\<close>, so an element the source reads
  more than once (\<open>points[medianIndex]\<close>, \<open>points[currentBest]\<close>) is read here at its
  first use and kept; the reads come in the order of the source. The index \<open>low\<close>
  returned for an exhausted range comes back to the caller as an ordinary index.
\<close>

function nearestIndex ::
  "nat \<Rightarrow> point list \<Rightarrow> point \<Rightarrow> int \<Rightarrow> int \<Rightarrow> int \<Rightarrow> error + int" where
  "nearestIndex D points query low high dim =
     (if low > high then Inr low
      else
        let medianIndex = int_div (low + high) 2 in
        (case at points medianIndex of Inl e \<Rightarrow> Inl e | Inr median \<Rightarrow>
        (case smallerDimVal D query median dim of Inl e \<Rightarrow> Inl e | Inr smaller \<Rightarrow>
        (case (if smaller
               then nearestIndex D points query low (medianIndex - 1) (int_rem (dim + 1) (int D))
               else nearestIndex D points query (medianIndex + 1) high (int_rem (dim + 1) (int D)))
         of Inl e \<Rightarrow> Inl e | Inr currentBest0 \<Rightarrow>
        (case at points currentBest0 of Inl e \<Rightarrow> Inl e | Inr best0 \<Rightarrow>
           let currentBest = (if shouldReplace D query best0 median then medianIndex else currentBest0) in
        (case coord D median dim of Inl e \<Rightarrow> Inl e | Inr m \<Rightarrow>
        (case coord D query dim of Inl e \<Rightarrow> Inl e | Inr q \<Rightarrow>
           let diff = \<bar>m - q\<bar>;
               diff = diff * diff in
        (case at points currentBest of Inl e \<Rightarrow> Inl e | Inr best \<Rightarrow>
           if diff \<le> distanceSquared D query best then
             (case (if currentBest \<ge> medianIndex
                    then nearestIndex D points query low (medianIndex - 1) (int_rem (dim + 1) (int D))
                    else nearestIndex D points query (medianIndex + 1) high (int_rem (dim + 1) (int D)))
              of Inl e \<Rightarrow> Inl e | Inr potentialBestIndex \<Rightarrow>
             (case at points potentialBestIndex of Inl e \<Rightarrow> Inl e | Inr potential \<Rightarrow>
                if shouldReplace D query best potential then Inr potentialBestIndex
                else Inr currentBest))
           else Inr currentBest))))))))"
  by pat_completeness auto
termination
proof (relation "measure (\<lambda>(D, points, query, low, high, dim). nat (high - low + 1))")
qed (auto simp: int_div_def sgn_if split: if_splits)

declare nearestIndex.simps [simp del]

text \<open>
  \<open>findNearestNeighbor\<close>: \<open>points.size() - 1\<close> is \<open>-1\<close> as an \<open>int\<close> when the tree is
  empty.
\<close>

definition findNearestNeighbor :: "nat \<Rightarrow> point list \<Rightarrow> point \<Rightarrow> error + point" where
  "findNearestNeighbor D points query =
     (case nearestIndex D points query 0 (int (length points) - 1) 0 of Inl e \<Rightarrow> Inl e
      | Inr i \<Rightarrow> at points i)"

text \<open>
  A read past the last element of a \<open>std::vector\<close> is undefined behaviour, and
  \<open>findNearestNeighbor\<close> stops at it. What a run that goes on computes depends on what
  the read yields. \<open>findNearestNeighbor_beyond\<close> is the same call over the storage
  \<open>points @ beyond\<close>, where \<open>beyond\<close> lists the values that lie after the last element
  (\<open>points.size()\<close> is still the length of \<open>points\<close>). An empty vector owns no storage,
  so nothing lies beyond it.
\<close>

definition findNearestNeighbor_beyond ::
  "nat \<Rightarrow> point list \<Rightarrow> point list \<Rightarrow> point \<Rightarrow> error + point" where
  "findNearestNeighbor_beyond D points beyond query =
     (let storage = (if points = [] then [] else points @ beyond)
      in (case nearestIndex D storage query 0 (int (length points) - 1) 0 of Inl e \<Rightarrow> Inl e
          | Inr i \<Rightarrow> at storage i))"

section \<open>Mosaic assembly (maptiles.cpp)\<close>

text \<open>
  Modelled from the spec: \<open>RGBAPixel\<close>, \<open>SourceImage\<close>, \<open>TileImage\<close> and
  \<open>MosaicCanvas\<close> are declared outside the sources at hand. A pixel is its three
  colour channels, a source image its two
  sizes and its region colours, a canvas its two sizes and the tiles set so far. The tile
  type is a parameter, with \<open>getAverageColor\<close> and the default-constructed tile
  \<open>dflt\<close> that \<open>std::map::operator[]\<close> inserts for a key it does not hold.

  The state of the two region loops is the canvas, the map \<open>tileImages\<close> and the list
  of the regions for which \<open>findNearestNeighbor\<close> has been called.

  The query of the region \<open>(i, j)\<close> runs over the storage that holds \<open>beyond i j\<close> after
  the last point of the tree (\<open>findNearestNeighbor_beyond\<close>); with \<open>beyond i j = []\<close> it
  is \<open>findNearestNeighbor\<close> itself.
\<close>

record RGBAPixel =
  red :: int
  green :: int
  blue :: int

record SourceImage =
  getRows :: int
  getColumns :: int
  getRegionColor :: "int \<Rightarrow> int \<Rightarrow> RGBAPixel"

record 'tile MosaicCanvas =
  canvasRows :: int
  canvasColumns :: int
  tiles :: "int \<times> int \<rightharpoonup> 'tile"

definition setTile :: "'tile MosaicCanvas \<Rightarrow> int \<Rightarrow> int \<Rightarrow> 'tile \<Rightarrow> 'tile MosaicCanvas" where
  "setTile mosaic i j t = mosaic\<lparr>tiles := (tiles mosaic)((i, j) \<mapsto> t)\<rparr>"

definition map_index :: "'tile \<Rightarrow> (point \<rightharpoonup> 'tile) \<Rightarrow> point \<Rightarrow> 'tile \<times> (point \<rightharpoonup> 'tile)" where
  "map_index dflt m key =
     (case m key of Some t \<Rightarrow> (t, m) | None \<Rightarrow> (dflt, m(key \<mapsto> dflt)))"

type_synonym 'tile mosaic_state = "'tile MosaicCanvas \<times> (point \<rightharpoonup> 'tile) \<times> (int \<times> int) list"

function mapTiles_columns ::
  "'tile \<Rightarrow> (int \<Rightarrow> int \<Rightarrow> point list) \<Rightarrow> SourceImage \<Rightarrow> point list \<Rightarrow> int \<Rightarrow> int \<Rightarrow> 'tile mosaic_state \<Rightarrow>
   error + 'tile mosaic_state" where
  "mapTiles_columns dflt beyond theSource regionColors i j (mosaic, tileImages, queries) =
     (if j < canvasColumns mosaic then
        let regionColor = getRegionColor theSource i j;
            p = [red regionColor, green regionColor, blue regionColor]
        in (case findNearestNeighbor_beyond 3 regionColors (beyond i j) p of Inl e \<Rightarrow> Inl e
            | Inr nearest \<Rightarrow>
                let (t, tileImages') = map_index dflt tileImages nearest
                in mapTiles_columns dflt beyond theSource regionColors i (j + 1)
                     (setTile mosaic i j t, tileImages', queries @ [(i, j)]))
      else Inr (mosaic, tileImages, queries))"
  by pat_completeness auto
termination
  by (relation "measure (\<lambda>(dflt, beyond, theSource, regionColors, i, j, (mosaic, tileImages, queries)).
        nat (canvasColumns mosaic - j))") (auto simp: setTile_def)

declare mapTiles_columns.simps [simp del]

lemma mapTiles_columns_rows:
  "mapTiles_columns dflt beyond theSource regionColors i j st = Inr st' \<Longrightarrow>
   canvasRows (fst st') = canvasRows (fst st)"
proof (induction dflt beyond theSource regionColors i j st rule: mapTiles_columns.induct)
  case (1 dflt beyond theSource regionColors i j mosaic tileImages queries)
  show ?case
  proof (cases "j < canvasColumns mosaic")
    case False
    then show ?thesis using "1.prems" by (simp add: mapTiles_columns.simps)
  next
    case True
    then show ?thesis
      using "1.prems" "1.IH"
      by (subst (asm) mapTiles_columns.simps)
        (auto simp: Let_def setTile_def split: sum.splits prod.splits)
  qed
qed

function mapTiles_rows ::
  "'tile \<Rightarrow> (int \<Rightarrow> int \<Rightarrow> point list) \<Rightarrow> SourceImage \<Rightarrow> point list \<Rightarrow> int \<Rightarrow>
   'tile mosaic_state \<Rightarrow> error + 'tile mosaic_state" where
  "mapTiles_rows dflt beyond theSource regionColors i state =
     (if i < canvasRows (fst state) then
        (case mapTiles_columns dflt beyond theSource regionColors i 0 state of Inl e \<Rightarrow> Inl e
         | Inr state' \<Rightarrow> mapTiles_rows dflt beyond theSource regionColors (i + 1) state')
      else Inr state)"
  by pat_completeness auto
termination
  by (relation "measure (\<lambda>(dflt, beyond, theSource, regionColors, i, state). nat (canvasRows (fst state) - i))")
    (auto dest: mapTiles_columns_rows)

declare mapTiles_rows.simps [simp del]

text \<open>The first loop of \<open>mapTiles\<close>: the vector \<open>tileColors\<close> and the map \<open>tileImages\<close>.\<close>

definition mapTiles_tiles ::
  "('tile \<Rightarrow> RGBAPixel) \<Rightarrow> 'tile list \<Rightarrow> point list \<times> (point \<rightharpoonup> 'tile)" where
  "mapTiles_tiles getAverageColor theTiles =
     fold (\<lambda>tile (tileColors, tileImages).
             let r = getAverageColor tile;
                 p = [red r, green r, blue r]
             in (tileColors @ [p], tileImages(p \<mapsto> tile)))
       theTiles ([], Map.empty)"

text \<open>\<open>mapTiles\<close> returns the canvas; the model returns the list of queried regions with it.\<close>

definition mapTiles ::
  "'tile \<Rightarrow> (int \<Rightarrow> int \<Rightarrow> point list) \<Rightarrow> ('tile \<Rightarrow> RGBAPixel) \<Rightarrow> SourceImage \<Rightarrow> 'tile list \<Rightarrow>
   (error + 'tile MosaicCanvas \<times> (int \<times> int) list) option" where
  "mapTiles dflt beyond getAverageColor theSource theTiles =
     (let mosaic = \<lparr>canvasRows = getRows theSource, canvasColumns = getColumns theSource,
                     tiles = Map.empty\<rparr>;
          (tileColors, tileImages) = mapTiles_tiles getAverageColor theTiles
      in (case KDTree 3 tileColors of None \<Rightarrow> None
          | Some (Inl e) \<Rightarrow> Some (Inl e)
          | Some (Inr regionColors) \<Rightarrow>
              (case mapTiles_rows dflt beyond theSource regionColors 0 (mosaic, tileImages, []) of
                 Inl e \<Rightarrow> Some (Inl e)
               | Inr (mosaic', tileImages', queries) \<Rightarrow> Some (Inr (mosaic', queries)))))"

section \<open>Properties used in the statements\<close>

text \<open>\<open>a\<close> precedes \<open>b\<close> along \<open>dim\<close>: \<open>smallerDimVal\<close> answers true.\<close>

definition precedes :: "nat \<Rightarrow> int \<Rightarrow> point \<Rightarrow> point \<Rightarrow> bool" where
  "precedes D dim a b = (smallerDimVal D a b dim = Inr True)"

text \<open>
  \<open>l'\<close> is \<open>l\<close> with the elements of the index range \<open>[lo, hi]\<close> reordered and every
  other element in place.
\<close>

definition permutes_range :: "'a list \<Rightarrow> 'a list \<Rightarrow> int \<Rightarrow> int \<Rightarrow> bool" where
  "permutes_range l l' lo hi =
     (length l' = length l \<and> mset l' = mset l \<and>
      (\<forall>k. k < length l \<and> (int k < lo \<or> hi < int k) \<longrightarrow> l' ! k = l ! k))"

text \<open>
  The invariant of the spec's data model, for the range \<open>[low, high]\<close> split along
  \<open>dim\<close> and every range below it: with \<open>m\<close> the midpoint, every point left of \<open>m\<close>
  has a coordinate at most that of \<open>points[m]\<close> and is not preceded by \<open>points[m]\<close>, every
  point right of \<open>m\<close> has a coordinate at least that of \<open>points[m]\<close> and does not precede
  it; the two halves are split along the next dimension.
\<close>

function kd_inv :: "nat \<Rightarrow> point list \<Rightarrow> int \<Rightarrow> int \<Rightarrow> int \<Rightarrow> bool" where
  "kd_inv D points low high dim =
     (if low > high then True
      else
        let m = int_div (low + high) 2 in
        (\<forall>i\<in>{low..m - 1}.
           points ! nat i ! nat dim \<le> points ! nat m ! nat dim \<and>
           smallerDimVal D (points ! nat m) (points ! nat i) dim = Inr False) \<and>
        (\<forall>i\<in>{m + 1..high}.
           points ! nat m ! nat dim \<le> points ! nat i ! nat dim \<and>
           smallerDimVal D (points ! nat i) (points ! nat m) dim = Inr False) \<and>
        kd_inv D points low (m - 1) (int_rem (dim + 1) (int D)) \<and>
        kd_inv D points (m + 1) high (int_rem (dim + 1) (int D)))"
  by pat_completeness auto
termination
proof (relation "measure (\<lambda>(D, points, low, high, dim). nat (high - low + 1))")
qed (auto simp: int_div_def sgn_if split: if_splits)

declare kd_inv.simps [simp del]

text \<open>
  The colour point \<open>mapTiles\<close> builds for the region \<open>(i, j)\<close>, and the tile that
  \<open>tileImages[key]\<close> yields.
\<close>

definition region_point :: "SourceImage \<Rightarrow> int \<Rightarrow> int \<Rightarrow> point" where
  "region_point theSource i j =
     (let regionColor = getRegionColor theSource i j
      in [red regionColor, green regionColor, blue regionColor])"

definition tile_of :: "'tile \<Rightarrow> (point \<rightharpoonup> 'tile) \<Rightarrow> point \<Rightarrow> 'tile" where
  "tile_of dflt m key = (case m key of Some t \<Rightarrow> t | None \<Rightarrow> dflt)"

section \<open>The partition loop\<close>

lemma smallerDimVal_total: "0 \<le> dim \<Longrightarrow> smallerDimVal D a b dim = Inr (precedes D dim a b)"
  by (auto simp: smallerDimVal_def precedes_def coord_def)

lemma at_in_range: "0 \<le> i \<Longrightarrow> i < int (length list) \<Longrightarrow> at list i = Inr (list ! nat i)"
  by (simp add: at_def)

lemma swap_in_range:
  "0 \<le> i \<Longrightarrow> i < int (length list) \<Longrightarrow> 0 \<le> j \<Longrightarrow> j < int (length list) \<Longrightarrow>
   swap list i j = Inr (list[nat i := list ! nat j, nat j := list ! nat i])"
  by (simp add: swap_def)

lemma mset_swap_int:
  "0 \<le> i \<Longrightarrow> i < int (length list) \<Longrightarrow> 0 \<le> j \<Longrightarrow> j < int (length list) \<Longrightarrow>
   mset (list[nat i := list ! nat j, nat j := list ! nat i]) = mset list"
  by (simp add: mset_swap)

lemma partition_loop_spec:
  assumes "0 \<le> dim" "0 \<le> s" "s \<le> i" "i \<le> high" "high < int (length list)"
    and "\<forall>k. s \<le> int k \<and> int k < i \<longrightarrow> \<not> precedes D dim (list ! k) pv"
  shows "\<exists>l' r. partition_loop D list pv dim high i s = Inr (l', r) \<and> s \<le> r \<and> r \<le> high \<and>
           length l' = length list \<and> mset l' = mset list \<and>
           (\<forall>k. k < length list \<and> (int k < s \<or> high \<le> int k) \<longrightarrow> l' ! k = list ! k) \<and>
           (\<forall>k. s \<le> int k \<and> int k < r \<longrightarrow> precedes D dim (l' ! k) pv) \<and>
           (\<forall>k. r \<le> int k \<and> int k < high \<longrightarrow> \<not> precedes D dim (l' ! k) pv)"
  using assms
proof (induction D list pv dim high i s rule: partition_loop.induct)
  case (1 D list pv dim high i s)
  show ?case
  proof (cases "i < high")
    case False
    with "1.prems" have "i = high" by simp
    then show ?thesis using "1.prems" by (subst partition_loop.simps) auto
  next
    case True
    have rd: "at list i = Inr (list ! nat i)"
      using True "1.prems" by (simp add: at_in_range)
    have sm: "smallerDimVal D (list ! nat i) pv dim = Inr (precedes D dim (list ! nat i) pv)"
      using "1.prems"(1) by (rule smallerDimVal_total)
    show ?thesis
    proof (cases "precedes D dim (list ! nat i) pv")
      case b: True
      define l1 where "l1 = list[nat i := list ! nat s, nat s := list ! nat i]"
      have sw: "swap list i s = Inr l1"
        using True "1.prems" by (simp add: swap_in_range l1_def)
      have len1: "length l1 = length list" by (simp add: l1_def)
      have ms1: "mset l1 = mset list"
        unfolding l1_def using True "1.prems" by (intro mset_swap_int) auto
      have mid: "\<forall>k. s + 1 \<le> int k \<and> int k < i + 1 \<longrightarrow> \<not> precedes D dim (l1 ! k) pv"
      proof (intro allI impI)
        fix k assume k: "s + 1 \<le> int k \<and> int k < i + 1"
        show "\<not> precedes D dim (l1 ! k) pv"
        proof (cases "int k = i")
          case True
          then have "l1 ! k = list ! nat s"
            using k "1.prems" \<open>i < high\<close> by (auto simp: l1_def nth_list_update)
          moreover have "\<not> precedes D dim (list ! nat s) pv"
            using "1.prems"(6)[rule_format, of "nat s"] k True "1.prems"(2) by auto
          ultimately show ?thesis by simp
        next
          case False
          then have "l1 ! k = list ! k"
            using k "1.prems" \<open>i < high\<close> by (auto simp: l1_def nth_list_update)
          then show ?thesis using "1.prems"(6)[rule_format, of k] k False by auto
        qed
      qed
      from "1.IH"(1)[OF True rd sm b sw "1.prems"(1) _ _ _ _ mid]
      obtain l' r where res: "partition_loop D l1 pv dim high (i + 1) (s + 1) = Inr (l', r)"
        and r: "s + 1 \<le> r" "r \<le> high"
        and len: "length l' = length l1" and ms: "mset l' = mset l1"
        and frame: "\<forall>k. k < length l1 \<and> (int k < s + 1 \<or> high \<le> int k) \<longrightarrow> l' ! k = l1 ! k"
        and left: "\<forall>k. s + 1 \<le> int k \<and> int k < r \<longrightarrow> precedes D dim (l' ! k) pv"
        and right: "\<forall>k. r \<le> int k \<and> int k < high \<longrightarrow> \<not> precedes D dim (l' ! k) pv"
        using True "1.prems" len1 by auto
      have eq: "partition_loop D list pv dim high i s = Inr (l', r)"
        by (subst partition_loop.simps) (simp add: True rd sm b sw res)
      have frame': "\<forall>k. k < length list \<and> (int k < s \<or> high \<le> int k) \<longrightarrow> l' ! k = list ! k"
      proof (intro allI impI)
        fix k assume k: "k < length list \<and> (int k < s \<or> high \<le> int k)"
        then have "l' ! k = l1 ! k" using frame len1 by auto
        also have "l1 ! k = list ! k"
        proof -
          have "nat i \<noteq> k" "nat s \<noteq> k" using k True "1.prems" by linarith+
          then show ?thesis by (simp add: l1_def)
        qed
        finally show "l' ! k = list ! k" .
      qed
      have left': "\<forall>k. s \<le> int k \<and> int k < r \<longrightarrow> precedes D dim (l' ! k) pv"
      proof (intro allI impI)
        fix k assume k: "s \<le> int k \<and> int k < r"
        show "precedes D dim (l' ! k) pv"
        proof (cases "int k = s")
          case ks: True
          have "k < length l1" using k r "1.prems" len1 by auto
          then have "l' ! k = l1 ! k" using frame ks by auto
          also have "l1 ! k = list ! nat i"
            using ks True "1.prems" by (auto simp: l1_def nth_list_update)
          finally show ?thesis using b by simp
        next
          case False
          then show ?thesis using left k by auto
        qed
      qed
      show ?thesis
        using eq r len len1 ms ms1 frame' left' right by auto
    next
      case b: False
      have mid: "\<forall>k. s \<le> int k \<and> int k < i + 1 \<longrightarrow> \<not> precedes D dim (list ! k) pv"
      proof (intro allI impI)
        fix k assume k: "s \<le> int k \<and> int k < i + 1"
        show "\<not> precedes D dim (list ! k) pv"
        proof (cases "int k = i")
          case True
          then have "nat i = k" by auto
          then show ?thesis using b by simp
        next
          case False
          then show ?thesis using "1.prems"(6)[rule_format, of k] k by auto
        qed
      qed
      from "1.IH"(2)[OF True rd sm b "1.prems"(1,2) _ _ "1.prems"(5) mid]
      obtain l' r where res: "partition_loop D list pv dim high (i + 1) s = Inr (l', r)"
        and post: "s \<le> r" "r \<le> high" "length l' = length list" "mset l' = mset list"
          "\<forall>k. k < length list \<and> (int k < s \<or> high \<le> int k) \<longrightarrow> l' ! k = list ! k"
          "\<forall>k. s \<le> int k \<and> int k < r \<longrightarrow> precedes D dim (l' ! k) pv"
          "\<forall>k. r \<le> int k \<and> int k < high \<longrightarrow> \<not> precedes D dim (l' ! k) pv"
        using True "1.prems" by auto
      have eq: "partition_loop D list pv dim high i s = Inr (l', r)"
        by (subst partition_loop.simps) (simp add: True rd sm b res)
      show ?thesis using eq post by auto
    qed
  qed
qed

section \<open>\<open>partition\<close>\<close>

lemma partition_spec:
  assumes "0 \<le> dim" "0 \<le> low" "low \<le> p" "p \<le> high" "high < int (length list)"
  shows "\<exists>l' r. partition_vec D list low high p dim = Inr (l', r) \<and> low \<le> r \<and> r \<le> high \<and>
           length l' = length list \<and> mset l' = mset list \<and>
           (\<forall>k. k < length list \<and> (int k < low \<or> high < int k) \<longrightarrow> l' ! k = list ! k) \<and>
           l' ! nat r = list ! nat p \<and>
           (\<forall>k. low \<le> int k \<and> int k < r \<longrightarrow> precedes D dim (l' ! k) (list ! nat p)) \<and>
           (\<forall>k. r < int k \<and> int k \<le> high \<longrightarrow> \<not> precedes D dim (l' ! k) (list ! nat p))"
proof -
  define pv where "pv = list ! nat p"
  define l1 where "l1 = list[nat p := list ! nat high, nat high := list ! nat p]"
  have rd: "at list p = Inr pv"
    using assms by (simp add: at_in_range pv_def)
  have sw1: "swap list p high = Inr l1"
    using assms by (simp add: swap_in_range l1_def)
  have len1: "length l1 = length list" by (simp add: l1_def)
  have ms1: "mset l1 = mset list"
    unfolding l1_def using assms by (intro mset_swap_int) auto
  have hi1: "l1 ! nat high = pv"
    using assms by (simp add: l1_def pv_def)
  have frame1: "\<forall>k. k < length list \<and> (int k < low \<or> high < int k) \<longrightarrow> l1 ! k = list ! k"
  proof (intro allI impI)
    fix k assume k: "k < length list \<and> (int k < low \<or> high < int k)"
    have "nat p \<noteq> k" "nat high \<noteq> k" using k assms by linarith+
    then show "l1 ! k = list ! k" by (simp add: l1_def)
  qed
  have "\<exists>l' r. partition_loop D l1 pv dim high low low = Inr (l', r) \<and> low \<le> r \<and> r \<le> high \<and>
           length l' = length l1 \<and> mset l' = mset l1 \<and>
           (\<forall>k. k < length l1 \<and> (int k < low \<or> high \<le> int k) \<longrightarrow> l' ! k = l1 ! k) \<and>
           (\<forall>k. low \<le> int k \<and> int k < r \<longrightarrow> precedes D dim (l' ! k) pv) \<and>
           (\<forall>k. r \<le> int k \<and> int k < high \<longrightarrow> \<not> precedes D dim (l' ! k) pv)"
    using assms len1 by (intro partition_loop_spec) auto
  then obtain l2 r where loop: "partition_loop D l1 pv dim high low low = Inr (l2, r)"
    and r: "low \<le> r" "r \<le> high"
    and len2: "length l2 = length l1" and ms2: "mset l2 = mset l1"
    and frame2: "\<forall>k. k < length l1 \<and> (int k < low \<or> high \<le> int k) \<longrightarrow> l2 ! k = l1 ! k"
    and left2: "\<forall>k. low \<le> int k \<and> int k < r \<longrightarrow> precedes D dim (l2 ! k) pv"
    and right2: "\<forall>k. r \<le> int k \<and> int k < high \<longrightarrow> \<not> precedes D dim (l2 ! k) pv"
    by blast
  define l3 where "l3 = l2[nat high := l2 ! nat r, nat r := l2 ! nat high]"
  have sw3: "swap l2 high r = Inr l3"
    using assms r len1 len2 by (simp add: swap_in_range l3_def)
  have eq: "partition_vec D list low high p dim = Inr (l3, r)"
    by (simp add: partition_vec_def rd sw1 loop sw3)
  have len3: "length l3 = length list" by (simp add: l3_def len2 len1)
  have ms3: "mset l3 = mset list"
  proof -
    have "mset l3 = mset l2"
      unfolding l3_def using assms r len1 len2 by (intro mset_swap_int) auto
    then show ?thesis by (simp add: ms2 ms1)
  qed
  have hi2: "l2 ! nat high = pv"
  proof -
    have "l2 ! nat high = l1 ! nat high"
      using frame2[rule_format, of "nat high"] assms len1 by auto
    then show ?thesis by (simp add: hi1)
  qed
  have piv3: "l3 ! nat r = pv"
    using assms r len1 len2 hi2 by (simp add: l3_def)
  have frame3: "\<forall>k. k < length list \<and> (int k < low \<or> high < int k) \<longrightarrow> l3 ! k = list ! k"
  proof (intro allI impI)
    fix k assume k: "k < length list \<and> (int k < low \<or> high < int k)"
    have ne: "nat r \<noteq> k" "nat high \<noteq> k" using k assms r by linarith+
    then have "l3 ! k = l2 ! k" by (simp add: l3_def)
    also have "l2 ! k = l1 ! k" using frame2[rule_format, of k] k len1 by auto
    also have "l1 ! k = list ! k" using frame1 k by auto
    finally show "l3 ! k = list ! k" .
  qed
  have left3: "\<forall>k. low \<le> int k \<and> int k < r \<longrightarrow> precedes D dim (l3 ! k) pv"
  proof (intro allI impI)
    fix k assume k: "low \<le> int k \<and> int k < r"
    have ne: "nat r \<noteq> k" "nat high \<noteq> k" using k assms r by linarith+
    then have "l3 ! k = l2 ! k" by (simp add: l3_def)
    then show "precedes D dim (l3 ! k) pv" using left2 k by auto
  qed
  have right3: "\<forall>k. r < int k \<and> int k \<le> high \<longrightarrow> \<not> precedes D dim (l3 ! k) pv"
  proof (intro allI impI)
    fix k assume k: "r < int k \<and> int k \<le> high"
    show "\<not> precedes D dim (l3 ! k) pv"
    proof (cases "int k = high")
      case True
      then have kk: "k = nat high" by auto
      have "nat r \<noteq> nat high" using k True assms r by linarith
      then have "l3 ! k = l2 ! nat r"
        using assms r len1 len2 by (simp add: l3_def kk)
      moreover have "\<not> precedes D dim (l2 ! nat r) pv"
        using right2[rule_format, of "nat r"] k True assms r by auto
      ultimately show ?thesis by simp
    next
      case False
      have ne: "nat r \<noteq> k" "nat high \<noteq> k" using k False assms r by linarith+
      then have "l3 ! k = l2 ! k" by (simp add: l3_def)
      then show ?thesis using right2[rule_format, of k] k False by auto
    qed
  qed
  show ?thesis
    using eq r len3 ms3 frame3 piv3 left3 right3 unfolding pv_def by blast
qed

lemma precedes_valid:
  "0 \<le> dim \<Longrightarrow> dim < int D \<Longrightarrow>
   precedes D dim a b = (a ! nat dim < b ! nat dim \<or> (a ! nat dim = b ! nat dim \<and> point_less a b))"
  by (auto simp: precedes_def smallerDimVal_def coord_def)

section \<open>Reordering inside an index range\<close>

lemma permutes_range_refl: "permutes_range l l lo hi"
  by (simp add: permutes_range_def)

lemma permutes_range_trans:
  "permutes_range l l' lo hi \<Longrightarrow> permutes_range l' l'' lo hi \<Longrightarrow> permutes_range l l'' lo hi"
  by (simp add: permutes_range_def)

lemma permutes_range_mono:
  "permutes_range l l' lo hi \<Longrightarrow> lo' \<le> lo \<Longrightarrow> hi \<le> hi' \<Longrightarrow> permutes_range l l' lo' hi'"
  by (auto simp: permutes_range_def)

lemma permutes_range_length: "permutes_range l l' lo hi \<Longrightarrow> length l' = length l"
  by (simp add: permutes_range_def)

lemma permutes_range_outside:
  "permutes_range l l' lo hi \<Longrightarrow> k < length l \<Longrightarrow> int k < lo \<or> hi < int k \<Longrightarrow> l' ! k = l ! k"
  by (simp add: permutes_range_def)

lemma permutes_range_elem:
  assumes pr: "permutes_range l l' lo hi"
    and b: "0 \<le> lo" "hi < int (length l)" "lo \<le> int k" "int k \<le> hi"
  shows "\<exists>j. lo \<le> int j \<and> int j \<le> hi \<and> l' ! k = l ! j"
proof -
  define a where "a = nat lo"
  define c where "c = nat hi + 1 - a"
  have len: "length l' = length l" and ms: "mset l' = mset l"
    and fr: "\<And>i. i < length l \<Longrightarrow> int i < lo \<or> hi < int i \<Longrightarrow> l' ! i = l ! i"
    using pr by (auto simp: permutes_range_def)
  have ak: "a \<le> k" "k < a + c" "a + c \<le> length l"
    using b by (auto simp: a_def c_def)
  have tk: "take a l' = take a l"
  proof (rule nth_equalityI)
    show "length (take a l') = length (take a l)" using len by simp
    fix i assume "i < length (take a l')"
    then have i: "i < a" "i < length l" using len by auto
    then have "int i < lo" using b by (simp add: a_def)
    with i show "take a l' ! i = take a l ! i" using fr[of i] by simp
  qed
  have dr: "drop (a + c) l' = drop (a + c) l"
  proof (rule nth_equalityI)
    show "length (drop (a + c) l') = length (drop (a + c) l)" using len by simp
    fix i assume "i < length (drop (a + c) l')"
    then have i: "a + c + i < length l" using len by auto
    have "hi < int (a + c + i)" using b by (simp add: a_def c_def)
    with i show "drop (a + c) l' ! i = drop (a + c) l ! i"
      using fr[of "a + c + i"] len by simp
  qed
  have split: "xs = take a xs @ take c (drop a xs) @ drop (a + c) xs" for xs :: "'a list"
    by (metis add.commute append_take_drop_id drop_drop)
  have "mset (take a l') + mset (take c (drop a l')) + mset (drop (a + c) l')
      = mset (take a l) + mset (take c (drop a l)) + mset (drop (a + c) l)"
    using ms split[of l] split[of l'] by (metis mset_append add.assoc)
  then have mid: "mset (take c (drop a l')) = mset (take c (drop a l))"
    by (simp add: tk dr)
  have "l' ! k = take c (drop a l') ! (k - a)"
    using ak len by simp
  moreover have "k - a < length (take c (drop a l'))"
    using ak len by simp
  ultimately have "l' ! k \<in> set (take c (drop a l'))"
    by (metis nth_mem)
  then have "l' ! k \<in> set (take c (drop a l))"
    using mid by (metis set_mset_mset)
  then obtain j where j: "j < length (take c (drop a l))" "take c (drop a l) ! j = l' ! k"
    by (auto simp: in_set_conv_nth)
  then have "l ! (a + j) = l' ! k" "j < c"
    using ak by auto
  then show ?thesis
    using b ak by (intro exI[of _ "a + j"]) (auto simp: a_def c_def)
qed

section \<open>\<open>select\<close>\<close>

lemma point_less_irrefl: "\<not> point_less a a"
  by (induction a) auto

lemma point_less_trans: "point_less a b \<Longrightarrow> point_less b c \<Longrightarrow> point_less a c"
proof (induction a b arbitrary: c rule: point_less.induct)
  case (1 x xs y ys)
  then show ?case by (cases c) auto
qed auto

lemma precedes_irrefl: "\<not> precedes D dim a a"
  by (auto simp: precedes_def smallerDimVal_def coord_def point_less_irrefl split: if_splits)

lemma precedes_trans:
  "precedes D dim a b \<Longrightarrow> precedes D dim b c \<Longrightarrow> precedes D dim a c"
  by (auto simp: precedes_def smallerDimVal_def coord_def split: if_splits
      intro: point_less_trans)

lemma select_spec:
  assumes "0 \<le> dim" "0 \<le> low" "low \<le> n" "n \<le> high" "high < int (length list)"
  shows "\<exists>l'. select D list low high n dim = Some (Inr l') \<and> permutes_range list l' low high \<and>
           (\<forall>k. low \<le> int k \<and> int k < n \<longrightarrow> \<not> precedes D dim (l' ! nat n) (l' ! k)) \<and>
           (\<forall>k. n < int k \<and> int k \<le> high \<longrightarrow> \<not> precedes D dim (l' ! k) (l' ! nat n))"
  using assms
proof (induction "nat (high - low)" arbitrary: list low high rule: less_induct)
  case less
  show ?case
  proof (cases "low = high")
    case True
    then have "select D list low high n dim = Some (Inr list)"
      by (subst select.simps) simp
    moreover have "n = low" using True less.prems by simp
    ultimately show ?thesis using True by (auto simp: permutes_range_refl)
  next
    case False
    from partition_spec[OF less.prems(1,2,3,4,5), of D]
    obtain l1 r where part: "partition_vec D list low high n dim = Inr (l1, r)"
      and r: "low \<le> r" "r \<le> high"
      and len1: "length l1 = length list" and ms1: "mset l1 = mset list"
      and frame1: "\<forall>k. k < length list \<and> (int k < low \<or> high < int k) \<longrightarrow> l1 ! k = list ! k"
      and piv: "l1 ! nat r = list ! nat n"
      and left1: "\<forall>k. low \<le> int k \<and> int k < r \<longrightarrow> precedes D dim (l1 ! k) (list ! nat n)"
      and right1: "\<forall>k. r < int k \<and> int k \<le> high \<longrightarrow> \<not> precedes D dim (l1 ! k) (list ! nat n)"
      by blast
    define pv where "pv = list ! nat n"
    have pr1: "permutes_range list l1 low high"
      using len1 ms1 frame1 by (simp add: permutes_range_def)
    have unfold: "select D list low high n dim =
        (if n = r then Some (Inr l1)
         else if n < r then select D l1 low (r - 1) n dim
         else select D l1 (r + 1) high n dim)"
      by (subst select.simps) (simp add: False part)
    consider (eq) "n = r" | (lt) "n < r" | (gt) "r < n" by linarith
    then show ?thesis
    proof cases
      case eq
      have "\<not> precedes D dim (l1 ! nat n) (l1 ! k)" if "low \<le> int k \<and> int k < n" for k
        using left1[rule_format, of k] that eq piv precedes_trans precedes_irrefl by metis
      moreover have "\<not> precedes D dim (l1 ! k) (l1 ! nat n)" if "n < int k \<and> int k \<le> high" for k
        using right1[rule_format, of k] that eq piv by simp
      ultimately show ?thesis using unfold eq pr1 by auto
    next
      case lt
      have "\<exists>l'. select D l1 low (r - 1) n dim = Some (Inr l') \<and> permutes_range l1 l' low (r - 1) \<and>
           (\<forall>k. low \<le> int k \<and> int k < n \<longrightarrow> \<not> precedes D dim (l' ! nat n) (l' ! k)) \<and>
           (\<forall>k. n < int k \<and> int k \<le> r - 1 \<longrightarrow> \<not> precedes D dim (l' ! k) (l' ! nat n))"
        using less.prems lt r len1 by (intro less.hyps) auto
      then obtain l2 where rec: "select D l1 low (r - 1) n dim = Some (Inr l2)"
        and pr2: "permutes_range l1 l2 low (r - 1)"
        and left2: "\<forall>k. low \<le> int k \<and> int k < n \<longrightarrow> \<not> precedes D dim (l2 ! nat n) (l2 ! k)"
        and right2: "\<forall>k. n < int k \<and> int k \<le> r - 1 \<longrightarrow> \<not> precedes D dim (l2 ! k) (l2 ! nat n)"
        by blast
      have pr: "permutes_range list l2 low high"
        using pr1 permutes_range_mono[OF pr2, of low high] r
        by (auto intro: permutes_range_trans)
      obtain j where j: "low \<le> int j" "int j \<le> r - 1" "l2 ! nat n = l1 ! j"
        using permutes_range_elem[OF pr2, of "nat n"] less.prems lt r len1 by auto
      then have xp: "precedes D dim (l2 ! nat n) pv"
        using left1[rule_format, of j] by (simp add: pv_def)
      have "\<not> precedes D dim (l2 ! k) (l2 ! nat n)" if k: "n < int k \<and> int k \<le> high" for k
      proof (cases "int k \<le> r - 1")
        case True
        then show ?thesis using right2 k by auto
      next
        case False
        then have "l2 ! k = l1 ! k"
          using permutes_range_outside[OF pr2, of k] k less.prems len1 by auto
        moreover have "\<not> precedes D dim (l1 ! k) pv"
        proof (cases "int k = r")
          case True
          then have "l1 ! k = pv" using piv by (auto simp: pv_def)
          then show ?thesis by (simp add: precedes_irrefl)
        next
          case False
          then show ?thesis using right1[rule_format, of k] k \<open>\<not> int k \<le> r - 1\<close>
            by (simp add: pv_def)
        qed
        ultimately show ?thesis using xp precedes_trans by metis
      qed
      then show ?thesis using unfold lt rec pr left2 by auto
    next
      case gt
      have "\<exists>l'. select D l1 (r + 1) high n dim = Some (Inr l') \<and> permutes_range l1 l' (r + 1) high \<and>
           (\<forall>k. r + 1 \<le> int k \<and> int k < n \<longrightarrow> \<not> precedes D dim (l' ! nat n) (l' ! k)) \<and>
           (\<forall>k. n < int k \<and> int k \<le> high \<longrightarrow> \<not> precedes D dim (l' ! k) (l' ! nat n))"
        using less.prems gt r len1 by (intro less.hyps) auto
      then obtain l2 where rec: "select D l1 (r + 1) high n dim = Some (Inr l2)"
        and pr2: "permutes_range l1 l2 (r + 1) high"
        and left2: "\<forall>k. r + 1 \<le> int k \<and> int k < n \<longrightarrow> \<not> precedes D dim (l2 ! nat n) (l2 ! k)"
        and right2: "\<forall>k. n < int k \<and> int k \<le> high \<longrightarrow> \<not> precedes D dim (l2 ! k) (l2 ! nat n)"
        by blast
      have pr: "permutes_range list l2 low high"
        using pr1 permutes_range_mono[OF pr2, of low high] r
        by (auto intro: permutes_range_trans)
      obtain j where j: "r + 1 \<le> int j" "int j \<le> high" "l2 ! nat n = l1 ! j"
        using permutes_range_elem[OF pr2, of "nat n"] less.prems gt r len1 by auto
      then have xp: "\<not> precedes D dim (l2 ! nat n) pv"
        using right1[rule_format, of j] by (simp add: pv_def)
      have "\<not> precedes D dim (l2 ! nat n) (l2 ! k)" if k: "low \<le> int k \<and> int k < n" for k
      proof (cases "r + 1 \<le> int k")
        case True
        then show ?thesis using left2 k by auto
      next
        case False
        then have "l2 ! k = l1 ! k"
          using permutes_range_outside[OF pr2, of k] k less.prems len1 by auto
        moreover have "l1 ! k = pv \<or> precedes D dim (l1 ! k) pv"
        proof (cases "int k = r")
          case True
          then show ?thesis using piv by (auto simp: pv_def)
        next
          case False
          then show ?thesis using left1[rule_format, of k] k \<open>\<not> r + 1 \<le> int k\<close>
            by (simp add: pv_def)
        qed
        ultimately show ?thesis using xp precedes_trans by metis
      qed
      then show ?thesis using unfold gt rec pr right2 by auto
    qed
  qed
qed

section \<open>\<open>construct\<close> and the constructor\<close>

lemma int_div_2_mid: "low \<le> high \<Longrightarrow> low \<le> int_div (low + high) 2 \<and> int_div (low + high) 2 \<le> high"
  by (auto simp: int_div_def sgn_if split: if_splits)

lemma int_rem_next: "0 < D \<Longrightarrow> 0 \<le> dim \<Longrightarrow>
   0 \<le> int_rem (dim + 1) (int D) \<and> int_rem (dim + 1) (int D) < int D"
proof -
  assume a: "0 < D" "0 \<le> dim"
  then have "int_div (dim + 1) (int D) = (dim + 1) div int D"
    by (simp add: int_div_def sgn_if)
  then have "int_rem (dim + 1) (int D) = (dim + 1) mod int D"
    by (simp add: int_rem_def minus_mult_div_eq_mod)
  then show ?thesis using a by simp
qed

lemma kd_inv_cong:
  "0 \<le> low \<Longrightarrow> \<forall>k. low \<le> int k \<and> int k \<le> high \<longrightarrow> l' ! k = l ! k \<Longrightarrow>
   kd_inv D l' low high dim = kd_inv D l low high dim"
proof (induction D l low high dim rule: kd_inv.induct)
  case (1 D points low high dim)
  show ?case
  proof (cases "low > high")
    case True
    then show ?thesis by (simp add: kd_inv.simps)
  next
    case False
    define m where "m = int_div (low + high) 2"
    have m: "low \<le> m" "m \<le> high" using False int_div_2_mid[of low high] by (auto simp: m_def)
    have eq: "l' ! nat i = points ! nat i" if "low \<le> i" "i \<le> high" for i
      using "1.prems"(2)[rule_format, of "nat i"] that "1.prems"(1) by auto
    have L: "kd_inv D l' low (m - 1) (int_rem (dim + 1) (int D))
           = kd_inv D points low (m - 1) (int_rem (dim + 1) (int D))"
      using "1.IH"(1)[OF False m_def] "1.prems" m by auto
    have R: "kd_inv D l' (m + 1) high (int_rem (dim + 1) (int D))
           = kd_inv D points (m + 1) high (int_rem (dim + 1) (int D))"
      using "1.IH"(2)[OF False m_def] "1.prems" m by auto
    show ?thesis
      unfolding kd_inv.simps[of D l' low high dim] kd_inv.simps[of D points low high dim]
      using False m L R eq by (auto simp: m_def[symmetric] Let_def)
  qed
qed

lemma not_precedes_coord:
  "0 \<le> dim \<Longrightarrow> dim < int D \<Longrightarrow> \<not> precedes D dim a b \<Longrightarrow> b ! nat dim \<le> a ! nat dim"
  by (auto simp: precedes_valid)

lemma not_precedes_smallerDimVal:
  "0 \<le> dim \<Longrightarrow> \<not> precedes D dim a b \<Longrightarrow> smallerDimVal D a b dim = Inr False"
  using smallerDimVal_total[of dim D a b] by simp

lemma kd_inv_detects_violation: "\<not> kd_inv 3 [[9, 9, 9], [1, 1, 1]] 0 1 0"
  by code_simp

lemma kd_inv_leaf: "high \<le> low \<Longrightarrow> kd_inv D l low high dim"
proof -
  assume a: "high \<le> low"
  show ?thesis
  proof (cases "high = low")
    case True
    have m: "int_div (2 * low) 2 = low" by (auto simp: int_div_def sgn_if)
    show ?thesis
      unfolding True kd_inv.simps[of D l low low dim]
      by (simp add: m Let_def kd_inv.simps[of D l low "low - 1"] kd_inv.simps[of D l "low + 1" low])
  next
    case False
    then show ?thesis using a by (simp add: kd_inv.simps)
  qed
qed

lemma construct_spec:
  assumes "0 < D" "0 \<le> dim" "0 \<le> low" "high < int (length list)"
    and "low < high \<longrightarrow> low \<le> n \<and> n \<le> high"
  shows "\<exists>l'. construct D list low high n dim = Some (Inr l') \<and> permutes_range list l' low high \<and>
           (dim < int D \<longrightarrow> n = int_div (low + high) 2 \<longrightarrow> kd_inv D l' low high dim)"
  using assms
proof (induction "nat (high - low + 1)" arbitrary: list low high n dim rule: less_induct)
  case less
  show ?case
  proof (cases "low \<ge> high")
    case True
    then have "construct D list low high n dim = Some (Inr list)"
      by (subst construct.simps) simp
    then show ?thesis using True by (simp add: permutes_range_refl kd_inv_leaf)
  next
    case False
    then have n: "low \<le> n" "n \<le> high" using less.prems by auto
    define dim' where "dim' = int_rem (dim + 1) (int D)"
    have dim': "0 \<le> dim'" "dim' < int D"
      using int_rem_next[OF less.prems(1,2)] by (auto simp: dim'_def)
    from select_spec[OF less.prems(2,3) n less.prems(4), of D]
    obtain l1 where sel: "select D list low high n dim = Some (Inr l1)"
      and pr1: "permutes_range list l1 low high"
      and left1: "\<forall>k. low \<le> int k \<and> int k < n \<longrightarrow> \<not> precedes D dim (l1 ! nat n) (l1 ! k)"
      and right1: "\<forall>k. n < int k \<and> int k \<le> high \<longrightarrow> \<not> precedes D dim (l1 ! k) (l1 ! nat n)"
      by blast
    have len1: "length l1 = length list" using pr1 by (rule permutes_range_length)
    define nl where "nl = int_div (low + n - 1) 2"
    define nr where "nr = int_div (n + 1 + high) 2"
    have nl: "low < n - 1 \<longrightarrow> low \<le> nl \<and> nl \<le> n - 1"
      using int_div_2_mid[of low "n - 1"] by (auto simp: nl_def algebra_simps)
    have nr: "n + 1 < high \<longrightarrow> n + 1 \<le> nr \<and> nr \<le> high"
      using int_div_2_mid[of "n + 1" high] by (auto simp: nr_def algebra_simps)
    have "\<exists>l'. construct D l1 low (n - 1) nl dim' = Some (Inr l') \<and>
             permutes_range l1 l' low (n - 1) \<and>
             (dim' < int D \<longrightarrow> nl = int_div (low + (n - 1)) 2 \<longrightarrow> kd_inv D l' low (n - 1) dim')"
      using less.prems n len1 dim' nl by (intro less.hyps) auto
    then obtain l2 where c2: "construct D l1 low (n - 1) nl dim' = Some (Inr l2)"
      and pr2: "permutes_range l1 l2 low (n - 1)"
      and kd2: "kd_inv D l2 low (n - 1) dim'"
      using dim' by (auto simp: nl_def algebra_simps)
    have len2: "length l2 = length l1" using pr2 by (rule permutes_range_length)
    have "\<exists>l'. construct D l2 (n + 1) high nr dim' = Some (Inr l') \<and>
             permutes_range l2 l' (n + 1) high \<and>
             (dim' < int D \<longrightarrow> nr = int_div (n + 1 + high) 2 \<longrightarrow> kd_inv D l' (n + 1) high dim')"
      using less.prems n len1 len2 dim' nr by (intro less.hyps) auto
    then obtain l3 where c3: "construct D l2 (n + 1) high nr dim' = Some (Inr l3)"
      and pr3: "permutes_range l2 l3 (n + 1) high"
      and kd3: "kd_inv D l3 (n + 1) high dim'"
      using dim' by (auto simp: nr_def)
    have len3: "length l3 = length l2" using pr3 by (rule permutes_range_length)
    have res: "construct D list low high n dim = Some (Inr l3)"
      by (subst construct.simps)
        (simp add: False sel c2 c3 nl_def[symmetric] nr_def[symmetric] dim'_def[symmetric])
    have pr: "permutes_range list l3 low high"
      using pr1 permutes_range_mono[OF pr2, of low high] permutes_range_mono[OF pr3, of low high] n
      by (auto intro: permutes_range_trans)
    have kd: "kd_inv D l3 low high dim" if d: "dim < int D" and mid: "n = int_div (low + high) 2"
    proof -
      have med: "l3 ! nat n = l1 ! nat n"
      proof -
        have "l3 ! nat n = l2 ! nat n"
          using permutes_range_outside[OF pr3, of "nat n"] n less.prems len1 len2 by auto
        also have "l2 ! nat n = l1 ! nat n"
          using permutes_range_outside[OF pr2, of "nat n"] n less.prems len1 by auto
        finally show ?thesis .
      qed
      have L: "l3 ! nat i ! nat dim \<le> l3 ! nat n ! nat dim \<and>
               smallerDimVal D (l3 ! nat n) (l3 ! nat i) dim = Inr False"
        if i: "i \<in> {low..n - 1}" for i
      proof -
        have "l3 ! nat i = l2 ! nat i"
          using permutes_range_outside[OF pr3, of "nat i"] i n less.prems len1 len2 by auto
        moreover obtain j where "low \<le> int j" "int j \<le> n - 1" "l2 ! nat i = l1 ! j"
          using permutes_range_elem[OF pr2, of "nat i"] i n less.prems len1 by auto
        ultimately have "\<not> precedes D dim (l3 ! nat n) (l3 ! nat i)"
          using left1[rule_format, of j] med by simp
        then show ?thesis
          using not_precedes_coord[OF less.prems(2) d] not_precedes_smallerDimVal[OF less.prems(2)]
          by blast
      qed
      have R: "l3 ! nat n ! nat dim \<le> l3 ! nat i ! nat dim \<and>
               smallerDimVal D (l3 ! nat i) (l3 ! nat n) dim = Inr False"
        if i: "i \<in> {n + 1..high}" for i
      proof -
        obtain j where j: "n + 1 \<le> int j" "int j \<le> high" "l3 ! nat i = l2 ! j"
          using permutes_range_elem[OF pr3, of "nat i"] i n less.prems len1 len2 by auto
        moreover have "l2 ! j = l1 ! j"
          using permutes_range_outside[OF pr2, of j] j n less.prems len1 by auto
        ultimately have "\<not> precedes D dim (l3 ! nat i) (l3 ! nat n)"
          using right1[rule_format, of j] med by simp
        then show ?thesis
          using not_precedes_coord[OF less.prems(2) d] not_precedes_smallerDimVal[OF less.prems(2)]
          by blast
      qed
      have "kd_inv D l3 low (n - 1) dim' = kd_inv D l2 low (n - 1) dim'"
      proof (rule kd_inv_cong)
        show "0 \<le> low" by (rule less.prems(3))
        show "\<forall>k. low \<le> int k \<and> int k \<le> n - 1 \<longrightarrow> l3 ! k = l2 ! k"
          using permutes_range_outside[OF pr3] n less.prems len1 len2 by auto
      qed
      then have kdl: "kd_inv D l3 low (n - 1) dim'" using kd2 by simp
      show ?thesis
        unfolding kd_inv.simps[of D l3 low high dim]
        using False L R kdl kd3 by (simp add: mid[symmetric] Let_def dim'_def[symmetric])
    qed
    show ?thesis using res pr kd by blast
  qed
qed

lemma KDTree_spec:
  assumes "0 < D"
  shows "\<exists>points. KDTree D newPoints = Some (Inr points) \<and>
           permutes_range newPoints points 0 (int (length newPoints) - 1) \<and>
           kd_inv D points 0 (int (length points) - 1) 0"
proof (cases "length newPoints = 0")
  case True
  then show ?thesis
    by (simp add: KDTree_def permutes_range_refl kd_inv.simps)
next
  case False
  define hi where "hi = int (length newPoints) - 1"
  have hi: "0 \<le> hi" "hi < int (length newPoints)" using False by (auto simp: hi_def)
  have "\<exists>l'. construct D newPoints 0 hi (int_div (0 + hi) 2) 0 = Some (Inr l') \<and>
          permutes_range newPoints l' 0 hi \<and>
          ((0::int) < int D \<longrightarrow> int_div (0 + hi) 2 = int_div (0 + hi) 2 \<longrightarrow> kd_inv D l' 0 hi 0)"
    using assms hi int_div_2_mid[of 0 hi] by (intro construct_spec) auto
  then obtain l' where c: "construct D newPoints 0 hi (int_div (0 + hi) 2) 0 = Some (Inr l')"
    and pr: "permutes_range newPoints l' 0 hi" and kd: "kd_inv D l' 0 hi 0"
    using assms by auto
  have "length l' = length newPoints" using pr by (rule permutes_range_length)
  then show ?thesis
    using False c pr kd by (simp add: KDTree_def Let_def hi_def)
qed

lemma smallerDimVal_large_dimension:
  "int D \<le> curDim \<Longrightarrow>
   smallerDimVal D first second curDim = Inr False \<and>
   smallerDimVal_log D curDim = [''[smallerDimVal] ERROR: curDim is bigger than dimension'']"
  by (simp add: smallerDimVal_def smallerDimVal_log_def)

section \<open>The search inside the storage\<close>

lemma nearestIndex_in_storage:
  assumes "0 < D" "0 \<le> dim" "dim < int D" "0 \<le> low" "low \<le> high + 1"
    and "high + 1 < int (length storage)"
  shows "\<exists>i. nearestIndex D storage query low high dim = Inr i \<and> low \<le> i \<and> i \<le> high + 1"
  using assms
proof (induction "nat (high - low + 1)" arbitrary: low high dim rule: less_induct)
  case less
  show ?case
  proof (cases "low > high")
    case True
    then show ?thesis using less.prems by (simp add: nearestIndex.simps)
  next
    case False
    define m where "m = int_div (low + high) 2"
    define dim' where "dim' = int_rem (dim + 1) (int D)"
    have m: "low \<le> m" "m \<le> high"
      using False int_div_2_mid[of low high] by (auto simp: m_def)
    have dim': "0 \<le> dim'" "dim' < int D"
      using int_rem_next[OF less.prems(1,2)] by (auto simp: dim'_def)
    have "\<exists>i. nearestIndex D storage query low (m - 1) dim' = Inr i \<and> low \<le> i \<and> i \<le> m - 1 + 1"
      using less.prems m dim' by (intro less.hyps) auto
    then obtain iL where L: "nearestIndex D storage query low (m - 1) dim' = Inr iL"
      and iL: "low \<le> iL" "iL \<le> m" by auto
    have "\<exists>i. nearestIndex D storage query (m + 1) high dim' = Inr i \<and> m + 1 \<le> i \<and> i \<le> high + 1"
      using less.prems m dim' by (intro less.hyps) auto
    then obtain iR where R: "nearestIndex D storage query (m + 1) high dim' = Inr iR"
      and iR: "m + 1 \<le> iR" "iR \<le> high + 1" by auto
    have rd: "at storage m = Inr (storage ! nat m)" "at storage iL = Inr (storage ! nat iL)"
      "at storage iR = Inr (storage ! nat iR)"
      using less.prems m iL iR by (simp_all add: at_in_range)
    have sm: "smallerDimVal D query (storage ! nat m) dim
                = Inr (precedes D dim query (storage ! nat m))"
      using less.prems(2) by (rule smallerDimVal_total)
    have co: "coord D (storage ! nat m) dim = Inr (storage ! nat m ! nat dim)"
      "coord D query dim = Inr (query ! nat dim)"
      using less.prems(2,3) by (simp_all add: coord_def)
    define cb0 where "cb0 = (if precedes D dim query (storage ! nat m) then iL else iR)"
    define cb where
      "cb = (if shouldReplace D query (storage ! nat cb0) (storage ! nat m) then m else cb0)"
    define pb where "pb = (if cb \<ge> m then iL else iR)"
    define res where
      "res = (if \<bar>storage ! nat m ! nat dim - query ! nat dim\<bar> *
                  \<bar>storage ! nat m ! nat dim - query ! nat dim\<bar>
                  \<le> distanceSquared D query (storage ! nat cb)
              then (if shouldReplace D query (storage ! nat cb) (storage ! nat pb) then pb else cb)
              else cb)"
    have b0: "low \<le> cb0" "cb0 \<le> high + 1" using m iL iR by (auto simp: cb0_def)
    have b1: "low \<le> cb" "cb \<le> high + 1" using m b0 by (auto simp: cb_def)
    have b2: "low \<le> pb" "pb \<le> high + 1" using m iL iR by (auto simp: pb_def)
    have b3: "low \<le> res" "res \<le> high + 1" using b1 b2 by (auto simp: res_def)
    have first: "(if precedes D dim query (storage ! nat m)
                  then nearestIndex D storage query low (m - 1) dim'
                  else nearestIndex D storage query (m + 1) high dim') = Inr cb0"
      by (simp add: cb0_def L R)
    have second: "(if cb \<ge> m
                  then nearestIndex D storage query low (m - 1) dim'
                  else nearestIndex D storage query (m + 1) high dim') = Inr pb"
      by (simp add: pb_def L R)
    have rd0: "at storage cb0 = Inr (storage ! nat cb0)"
      using less.prems b0 by (simp add: at_in_range)
    have rd1: "at storage cb = Inr (storage ! nat cb)"
      using less.prems b1 by (simp add: at_in_range)
    have rd2: "at storage pb = Inr (storage ! nat pb)"
      using less.prems b2 by (simp add: at_in_range)
    have "nearestIndex D storage query low high dim = Inr res"
      unfolding nearestIndex.simps[of D storage query low high dim]
        m_def[symmetric] dim'_def[symmetric] Let_def
      unfolding rd(1) sm co first sum.case rd0 cb_def[symmetric] rd1 second rd2 res_def
      using False by simp
    then show ?thesis using b3 by simp
  qed
qed

lemma findNearestNeighbor_beyond_returns:
  assumes "points \<noteq> []" "beyond \<noteq> []"
  shows "\<exists>nearest. findNearestNeighbor_beyond 3 points beyond query = Inr nearest"
proof -
  have "\<exists>i. nearestIndex 3 (points @ beyond) query 0 (int (length points) - 1) 0 = Inr i \<and>
          0 \<le> i \<and> i \<le> int (length points) - 1 + 1"
    using assms by (intro nearestIndex_in_storage) (auto simp: Suc_le_eq)
  then obtain i where i: "nearestIndex 3 (points @ beyond) query 0 (int (length points) - 1) 0 = Inr i"
    "0 \<le> i" "i \<le> int (length points)" by auto
  have "0 < int (length beyond)" using assms(2) by simp
  then have "i < int (length points) + int (length beyond)" using i(3) by linarith
  then have "i < int (length (points @ beyond))" by simp
  then have "at (points @ beyond) i = Inr ((points @ beyond) ! nat i)"
    using i(2) by (rule at_in_range[rotated])
  then show ?thesis
    using assms(1) i(1) by (simp add: findNearestNeighbor_beyond_def)
qed

lemma findNearestNeighbor_beyond_Nil:
  "findNearestNeighbor_beyond D points [] query = findNearestNeighbor D points query"
  by (cases "points = []") (simp_all add: findNearestNeighbor_beyond_def findNearestNeighbor_def)

section \<open>The loops of \<open>mapTiles\<close>\<close>

lemma map_index_tile_of:
  "map_index dflt m key = (t, m') \<Longrightarrow> t = tile_of dflt m key \<and> tile_of dflt m' = tile_of dflt m"
proof (cases "m key")
  case None
  assume "map_index dflt m key = (t, m')"
  with None have t: "t = dflt" and m': "m' = m(key \<mapsto> dflt)"
    by (auto simp: map_index_def)
  have "tile_of dflt m' k = tile_of dflt m k" for k
    unfolding m' using None by (cases "k = key") (simp_all add: tile_of_def)
  then show ?thesis using t None by (auto simp: tile_of_def)
next
  case (Some a)
  assume "map_index dflt m key = (t, m')"
  with Some show ?thesis by (auto simp: tile_of_def map_index_def)
qed

lemma mapTiles_columns_spec:
  assumes "mapTiles_columns dflt beyond theSource regionColors i j (mosaic, tileImages, queries)
             = Inr (mosaic', tileImages', queries')"
  shows "canvasRows mosaic' = canvasRows mosaic \<and> canvasColumns mosaic' = canvasColumns mosaic \<and>
         tile_of dflt tileImages' = tile_of dflt tileImages \<and>
         queries' = queries @ map (\<lambda>j'. (i, j')) [j..canvasColumns mosaic - 1] \<and>
         (\<forall>j'. j \<le> j' \<and> j' < canvasColumns mosaic \<longrightarrow>
            (\<exists>nearest. findNearestNeighbor_beyond 3 regionColors (beyond i j')
                 (region_point theSource i j') = Inr nearest \<and>
               tiles mosaic' (i, j') = Some (tile_of dflt tileImages nearest))) \<and>
         (\<forall>i' j'. i' \<noteq> i \<or> j' < j \<longrightarrow> tiles mosaic' (i', j') = tiles mosaic (i', j'))"
  using assms
proof (induction dflt beyond theSource regionColors i j "(mosaic, tileImages, queries)"
    arbitrary: mosaic tileImages queries rule: mapTiles_columns.induct)
  case (1 dflt beyond theSource regionColors i j mosaic tileImages queries)
  show ?case
  proof (cases "j < canvasColumns mosaic")
    case False
    then show ?thesis using "1.prems" by (auto simp: mapTiles_columns.simps)
  next
    case True
    define p where "p = region_point theSource i j"
    from "1.prems" True obtain nearest where
      q: "findNearestNeighbor_beyond 3 regionColors (beyond i j) p = Inr nearest"
      by (subst (asm) mapTiles_columns.simps)
        (auto simp: Let_def p_def region_point_def split: sum.splits)
    obtain t ti1 where mi: "map_index dflt tileImages nearest = (t, ti1)"
      by (cases "map_index dflt tileImages nearest") auto
    have t: "t = tile_of dflt tileImages nearest" and ti1: "tile_of dflt ti1 = tile_of dflt tileImages"
      using map_index_tile_of[OF mi] by auto
    have rec: "mapTiles_columns dflt beyond theSource regionColors i (j + 1)
                 (setTile mosaic i j t, ti1, queries @ [(i, j)]) = Inr (mosaic', tileImages', queries')"
      using "1.prems" True q mi
      by (subst (asm) mapTiles_columns.simps) (simp add: Let_def p_def region_point_def)
    have q': "findNearestNeighbor_beyond 3 regionColors (beyond i j)
               [red (getRegionColor theSource i j), green (getRegionColor theSource i j),
                blue (getRegionColor theSource i j)] = Inr nearest"
      using q by (simp add: p_def region_point_def Let_def)
    note IH = "1.hyps"[OF True refl refl q' mi[symmetric] refl rec]
    have up: "[j..canvasColumns mosaic - 1] = j # [j + 1..canvasColumns mosaic - 1]"
      using True by (simp add: upto_rec1)
    have here: "tiles mosaic' (i, j) = Some t"
      using IH by (simp add: setTile_def)
    show ?thesis
    proof (intro conjI allI impI)
      show "canvasRows mosaic' = canvasRows mosaic" using IH by (simp add: setTile_def)
      show "canvasColumns mosaic' = canvasColumns mosaic" using IH by (simp add: setTile_def)
      show "tile_of dflt tileImages' = tile_of dflt tileImages" using IH ti1 by simp
      show "queries' = queries @ map (Pair i) [j..canvasColumns mosaic - 1]"
        using IH up by (simp add: setTile_def)
    next
      fix j' assume j': "j \<le> j' \<and> j' < canvasColumns mosaic"
      show "\<exists>nearest. findNearestNeighbor_beyond 3 regionColors (beyond i j')
                 (region_point theSource i j') = Inr nearest \<and>
               tiles mosaic' (i, j') = Some (tile_of dflt tileImages nearest)"
      proof (cases "j' = j")
        case True
        then show ?thesis using q here t by (auto simp: p_def)
      next
        case False
        then have "j + 1 \<le> j' \<and> j' < canvasColumns (setTile mosaic i j t)"
          using j' by (simp add: setTile_def)
        then show ?thesis using IH ti1 by auto
      qed
    next
      fix i' j' assume "i' \<noteq> i \<or> j' < j"
      then have "tiles mosaic' (i', j') = tiles (setTile mosaic i j t) (i', j')"
        using IH by auto
      then show "tiles mosaic' (i', j') = tiles mosaic (i', j')"
        using \<open>i' \<noteq> i \<or> j' < j\<close> by (auto simp: setTile_def)
    qed
  qed
qed

lemma mapTiles_rows_spec:
  assumes "mapTiles_rows dflt beyond theSource regionColors i (mosaic, tileImages, queries)
             = Inr (mosaic', tileImages', queries')"
  shows "canvasRows mosaic' = canvasRows mosaic \<and> canvasColumns mosaic' = canvasColumns mosaic \<and>
         tile_of dflt tileImages' = tile_of dflt tileImages \<and>
         queries' = queries @
           concat (map (\<lambda>i'. map (\<lambda>j'. (i', j')) [0..canvasColumns mosaic - 1])
                     [i..canvasRows mosaic - 1]) \<and>
         (\<forall>i' j'. i \<le> i' \<and> i' < canvasRows mosaic \<and> 0 \<le> j' \<and> j' < canvasColumns mosaic \<longrightarrow>
            (\<exists>nearest. findNearestNeighbor_beyond 3 regionColors (beyond i' j')
                 (region_point theSource i' j') = Inr nearest \<and>
               tiles mosaic' (i', j') = Some (tile_of dflt tileImages nearest))) \<and>
         (\<forall>i' j'. i' < i \<longrightarrow> tiles mosaic' (i', j') = tiles mosaic (i', j'))"
  using assms
proof (induction dflt beyond theSource regionColors i "(mosaic, tileImages, queries)"
    arbitrary: mosaic tileImages queries rule: mapTiles_rows.induct)
  case (1 dflt beyond theSource regionColors i mosaic tileImages queries)
  show ?case
  proof (cases "i < canvasRows mosaic")
    case False
    then show ?thesis using "1.prems" by (auto simp: mapTiles_rows.simps)
  next
    case True
    from "1.prems" True obtain m1 ti1 q1 where
      cols: "mapTiles_columns dflt beyond theSource regionColors i 0 (mosaic, tileImages, queries)
               = Inr (m1, ti1, q1)"
      and rec: "mapTiles_rows dflt beyond theSource regionColors (i + 1) (m1, ti1, q1)
               = Inr (mosaic', tileImages', queries')"
      by (subst (asm) mapTiles_rows.simps) (auto split: sum.splits)
    note C = mapTiles_columns_spec[OF cols]
    have True': "i < canvasRows (fst (mosaic, tileImages, queries))" using True by simp
    note IH = "1.hyps"[OF True' cols rec]
    have up: "[i..canvasRows mosaic - 1] = i # [i + 1..canvasRows mosaic - 1]"
      using True by (simp add: upto_rec1)
    show ?thesis
    proof (intro conjI allI impI)
      show "canvasRows mosaic' = canvasRows mosaic" using IH C by simp
      show "canvasColumns mosaic' = canvasColumns mosaic" using IH C by simp
      show "tile_of dflt tileImages' = tile_of dflt tileImages" using IH C by simp
      show "queries' = queries @
           concat (map (\<lambda>i'. map (Pair i') [0..canvasColumns mosaic - 1])
                     [i..canvasRows mosaic - 1])"
        using IH C up by simp
    next
      fix i' j'
      assume b: "i \<le> i' \<and> i' < canvasRows mosaic \<and> 0 \<le> j' \<and> j' < canvasColumns mosaic"
      show "\<exists>nearest. findNearestNeighbor_beyond 3 regionColors (beyond i' j')
                 (region_point theSource i' j') = Inr nearest \<and>
               tiles mosaic' (i', j') = Some (tile_of dflt tileImages nearest)"
      proof (cases "i' = i")
        case True
        from C b obtain nearest where
          "findNearestNeighbor_beyond 3 regionColors (beyond i j')
                 (region_point theSource i j') = Inr nearest"
          "tiles m1 (i, j') = Some (tile_of dflt tileImages nearest)"
          by blast
        moreover have "tiles mosaic' (i, j') = tiles m1 (i, j')" using IH by simp
        ultimately show ?thesis using True by auto
      next
        case False
        then have "i + 1 \<le> i' \<and> i' < canvasRows m1 \<and> 0 \<le> j' \<and> j' < canvasColumns m1"
          using b C by simp
        then show ?thesis using IH C by auto
      qed
    next
      fix i' j' :: int assume "i' < i"
      then have "tiles mosaic' (i', j') = tiles m1 (i', j')" using IH by simp
      also have "tiles m1 (i', j') = tiles mosaic (i', j')" using C \<open>i' < i\<close> by simp
      finally show "tiles mosaic' (i', j') = tiles mosaic (i', j')" .
    qed
  qed
qed

lemma mapTiles_wiring:
  assumes "mapTiles dflt beyond getAverageColor theSource theTiles = Some (Inr (mosaic', queries))"
  shows "queries = concat (map (\<lambda>i. map (\<lambda>j. (i, j)) [0..getColumns theSource - 1])
                             [0..getRows theSource - 1]) \<and>
         (\<exists>regionColors.
            KDTree 3 (fst (mapTiles_tiles getAverageColor theTiles)) = Some (Inr regionColors) \<and>
            (\<forall>i j. 0 \<le> i \<and> i < getRows theSource \<and> 0 \<le> j \<and> j < getColumns theSource \<longrightarrow>
               (\<exists>nearest.
                  findNearestNeighbor_beyond 3 regionColors (beyond i j)
                 (region_point theSource i j) = Inr nearest \<and>
                  tiles mosaic' (i, j) =
                    Some (tile_of dflt (snd (mapTiles_tiles getAverageColor theTiles)) nearest))))"
proof -
  obtain tileColors tileImages where tt:
    "mapTiles_tiles getAverageColor theTiles = (tileColors, tileImages)"
    by (cases "mapTiles_tiles getAverageColor theTiles") auto
  define mosaic :: "'a MosaicCanvas" where
    "mosaic = \<lparr>canvasRows = getRows theSource, canvasColumns = getColumns theSource,
               tiles = Map.empty\<rparr>"
  from assms obtain regionColors ti' where
    tree: "KDTree 3 tileColors = Some (Inr regionColors)"
    and rows: "mapTiles_rows dflt beyond theSource regionColors 0 (mosaic, tileImages, [])
                 = Inr (mosaic', ti', queries)"
    by (auto simp: mapTiles_def tt Let_def mosaic_def split: option.splits sum.splits prod.splits)
  note R = mapTiles_rows_spec[OF rows]
  have "queries = concat (map (\<lambda>i. map (Pair i) [0..getColumns theSource - 1])
                             [0..getRows theSource - 1])"
    using R by (simp add: mosaic_def)
  moreover have "\<exists>nearest.
                  findNearestNeighbor_beyond 3 regionColors (beyond i j)
                 (region_point theSource i j) = Inr nearest \<and>
                  tiles mosaic' (i, j) = Some (tile_of dflt tileImages nearest)"
    if "0 \<le> i \<and> i < getRows theSource \<and> 0 \<le> j \<and> j < getColumns theSource" for i j
    using R that by (simp add: mosaic_def)
  ultimately show ?thesis using tree by (simp add: tt)
qed

lemma mapTiles_columns_returns:
  assumes "regionColors \<noteq> []" "\<forall>i j. beyond i j \<noteq> []"
  shows "\<exists>st'. mapTiles_columns dflt beyond theSource regionColors i j st = Inr st'"
  using assms
proof (induction dflt beyond theSource regionColors i j st rule: mapTiles_columns.induct)
  case (1 dflt beyond theSource regionColors i j mosaic tileImages queries)
  show ?case
  proof (cases "j < canvasColumns mosaic")
    case False
    then have "mapTiles_columns dflt beyond theSource regionColors i j
                 (mosaic, tileImages, queries) = Inr (mosaic, tileImages, queries)"
      by (simp add: mapTiles_columns.simps)
    then show ?thesis by (rule exI)
  next
    case True
    obtain nearest where q: "findNearestNeighbor_beyond 3 regionColors (beyond i j)
               [red (getRegionColor theSource i j), green (getRegionColor theSource i j),
                blue (getRegionColor theSource i j)] = Inr nearest"
      using findNearestNeighbor_beyond_returns[of regionColors "beyond i j"] "1.prems" by blast
    obtain t ti1 where mi: "map_index dflt tileImages nearest = (t, ti1)"
      by (cases "map_index dflt tileImages nearest") auto
    from "1.IH"[OF True refl refl q mi[symmetric] refl "1.prems"]
    obtain st' where "mapTiles_columns dflt beyond theSource regionColors i (j + 1)
                 (setTile mosaic i j t, ti1, queries @ [(i, j)]) = Inr st'" by blast
    then have "mapTiles_columns dflt beyond theSource regionColors i j
                 (mosaic, tileImages, queries) = Inr st'"
      using True q mi by (subst mapTiles_columns.simps) (simp add: Let_def)
    then show ?thesis by (rule exI)
  qed
qed

lemma mapTiles_rows_returns:
  assumes "regionColors \<noteq> []" "\<forall>i j. beyond i j \<noteq> []"
  shows "\<exists>st'. mapTiles_rows dflt beyond theSource regionColors i st = Inr st'"
  using assms
proof (induction dflt beyond theSource regionColors i st rule: mapTiles_rows.induct)
  case (1 dflt beyond theSource regionColors i state)
  show ?case
  proof (cases "i < canvasRows (fst state)")
    case False
    then have "mapTiles_rows dflt beyond theSource regionColors i state = Inr state"
      by (simp add: mapTiles_rows.simps)
    then show ?thesis by (rule exI)
  next
    case True
    obtain st1 where c: "mapTiles_columns dflt beyond theSource regionColors i 0 state = Inr st1"
      using mapTiles_columns_returns[OF "1.prems", of dflt theSource i 0 state] by blast
    from "1.IH"[OF True c "1.prems"]
    obtain st' where "mapTiles_rows dflt beyond theSource regionColors (i + 1) st1 = Inr st'"
      by blast
    then have "mapTiles_rows dflt beyond theSource regionColors i state = Inr st'"
      using True c by (subst mapTiles_rows.simps) simp
    then show ?thesis by (rule exI)
  qed
qed

lemma mapTiles_tiles_fold_length:
  "length (fst (fold (\<lambda>tile (tileColors, tileImages).
             let r = getAverageColor tile;
                 p = [red r, green r, blue r]
             in (tileColors @ [p], tileImages(p \<mapsto> tile))) theTiles (acc, m)))
   = length acc + length theTiles"
  by (induction theTiles arbitrary: acc m) (simp_all add: Let_def)

lemma mapTiles_tiles_length:
  "length (fst (mapTiles_tiles getAverageColor theTiles)) = length theTiles"
  using mapTiles_tiles_fold_length[of getAverageColor theTiles "[]" Map.empty]
  by (simp add: mapTiles_tiles_def)

lemma distinct_regions:
  "distinct xs \<Longrightarrow> distinct ys \<Longrightarrow> distinct (concat (map (\<lambda>i. map (\<lambda>j. (i, j)) ys) xs))"
  by (induction xs) (auto simp: distinct_map inj_on_def)

section \<open>The claims\<close>

text \<open>
  Claim C1 (not met by the code). The claim: on a tree built from a non-empty point set,
  \<open>findNearestNeighbor\<close> returns a point of the set at minimal squared distance from the
  query. On the tree built from \<open>(5,100,0), (6,0,0)\<close> the query \<open>(4,0,0)\<close> returns
  \<open>(5,100,0)\<close>, at squared distance 10001, although \<open>(6,0,0)\<close> is at squared distance 4:
  once the median has replaced the best point of the near side, the test
  \<open>currentBest >= medianIndex\<close> sends the second search to the left range again, and
  the right range is never visited. No read leaves the vector in this run.
\<close>

theorem findNearestNeighbor_misses_nearer_point:
  "KDTree 3 [[5, 100, 0], [6, 0, 0]] = Some (Inr [[5, 100, 0], [6, 0, 0]]) \<and>
   findNearestNeighbor 3 [[5, 100, 0], [6, 0, 0]] [4, 0, 0] = Inr [5, 100, 0] \<and>
   distanceSquared 3 [4, 0, 0] [5, 100, 0] = 10001 \<and>
   distanceSquared 3 [4, 0, 0] [6, 0, 0] = 4"
  by code_simp

text \<open>
  Claim C2. After the constructor returns, the tree's point sequence is a permutation of
  the input vector: the two have the same multiset of points.
\<close>

theorem constructor_permutes_input:
  assumes "0 < D"
  shows "\<exists>points. KDTree D newPoints = Some (Inr points) \<and> mset points = mset newPoints"
  using KDTree_spec[OF assms, of newPoints] by (auto simp: permutes_range_def)

theorem constructor_permutes_input_witness:
  "(0::nat) < 3 \<and>
   KDTree 3 [[9, 9, 9], [1, 1, 1], [5, 0, 5], [1, 1, 1]]
     = Some (Inr [[1, 1, 1], [1, 1, 1], [5, 0, 5], [9, 9, 9]]) \<and>
   (\<exists>points. KDTree 3 [[9, 9, 9], [1, 1, 1], [5, 0, 5], [1, 1, 1]] = Some (Inr points) \<and>
      mset points = mset [[9, 9, 9], [1, 1, 1], [5, 0, 5], [1, 1, 1]])"
proof -
  have "KDTree 3 [[9, 9, 9], [1, 1, 1], [5, 0, 5], [1, 1, 1]]
     = Some (Inr [[1, 1, 1], [1, 1, 1], [5, 0, 5], [9, 9, 9]])"
    by code_simp
  then show ?thesis
    using constructor_permutes_input[of 3 "[[9, 9, 9], [1, 1, 1], [5, 0, 5], [1, 1, 1]]"] by simp
qed

text \<open>
  Claim C3. After construction from a non-empty input of \<open>n\<close> points, the tree holds
  these \<open>n\<close> points, and the invariant \<open>kd_inv\<close> holds for the range \<open>[0, n - 1]\<close>
  along dimension 0, hence for every range the recursive split reaches: points left of the median index have a coordinate at most the median's and are
  not preceded by it under the tie-broken order, points right of it have a coordinate at
  least the median's and do not precede it.
\<close>

theorem constructor_establishes_kd_invariant:
  assumes "0 < D" "newPoints \<noteq> []"
  shows "\<exists>points. KDTree D newPoints = Some (Inr points) \<and>
           points \<noteq> [] \<and> length points = length newPoints \<and> mset points = mset newPoints \<and>
           kd_inv D points 0 (int (length newPoints) - 1) 0"
proof -
  from KDTree_spec[OF assms(1), of newPoints]
  obtain points where res: "KDTree D newPoints = Some (Inr points)"
    and pr: "permutes_range newPoints points 0 (int (length newPoints) - 1)"
    and kd: "kd_inv D points 0 (int (length points) - 1) 0"
    by blast
  have len: "length points = length newPoints" and ms: "mset points = mset newPoints"
    using pr by (simp_all add: permutes_range_def)
  have "points \<noteq> []" using len assms(2) by auto
  then show ?thesis using res len ms kd by auto
qed

theorem constructor_establishes_kd_invariant_witness:
  "KDTree 3 [[0, 255, 0], [5, 100, 0], [6, 0, 0], [3, 3, 3], [9, 9, 9], [1, 1, 1], [3, 3, 3]]
     = Some (Inr [[1, 1, 1], [3, 3, 3], [0, 255, 0], [3, 3, 3], [6, 0, 0], [9, 9, 9], [5, 100, 0]]) \<and>
   mset ([[1, 1, 1], [3, 3, 3], [0, 255, 0], [3, 3, 3], [6, 0, 0], [9, 9, 9], [5, 100, 0]]
           :: point list)
     = mset [[0, 255, 0], [5, 100, 0], [6, 0, 0], [3, 3, 3], [9, 9, 9], [1, 1, 1], [3, 3, 3]] \<and>
   kd_inv 3 [[1, 1, 1], [3, 3, 3], [0, 255, 0], [3, 3, 3], [6, 0, 0], [9, 9, 9], [5, 100, 0]] 0 6 0"
proof -
  have run: "KDTree 3 [[0, 255, 0], [5, 100, 0], [6, 0, 0], [3, 3, 3], [9, 9, 9], [1, 1, 1], [3, 3, 3]]
     = Some (Inr [[1, 1, 1], [3, 3, 3], [0, 255, 0], [3, 3, 3], [6, 0, 0], [9, 9, 9], [5, 100, 0]])"
    by code_simp
  from constructor_establishes_kd_invariant[of 3
      "[[0, 255, 0], [5, 100, 0], [6, 0, 0], [3, 3, 3], [9, 9, 9], [1, 1, 1], [3, 3, 3]]"]
  show ?thesis unfolding run by simp
qed

text \<open>
  Claim C4. For indices \<open>0 \<le> low \<le> pivotIndex \<le> high < size\<close> and a valid dimension,
  \<open>partition\<close> returns an index \<open>r\<close> of \<open>[low, high]\<close>; the element that was at
  \<open>pivotIndex\<close> is at \<open>r\<close>; every element now in \<open>[low, r - 1]\<close> precedes the pivot
  value under \<open>smallerDimVal\<close>, and no element now in \<open>[r + 1, high]\<close> does.
\<close>

theorem partition_correct:
  assumes "0 \<le> low" "low \<le> pivotIndex" "pivotIndex \<le> high" "high < int (length list)"
    and "0 \<le> dim" "dim < int D"
  shows "\<exists>list' r. partition_vec D list low high pivotIndex dim = Inr (list', r) \<and>
           low \<le> r \<and> r \<le> high \<and> list' ! nat r = list ! nat pivotIndex \<and>
           (\<forall>k\<in>{low..r - 1}.
              smallerDimVal D (list' ! nat k) (list ! nat pivotIndex) dim = Inr True) \<and>
           (\<forall>k\<in>{r + 1..high}.
              smallerDimVal D (list' ! nat k) (list ! nat pivotIndex) dim = Inr False)"
proof -
  from partition_spec[OF assms(5) assms(1-4), of D]
  obtain l' r where res: "partition_vec D list low high pivotIndex dim = Inr (l', r)"
    and r: "low \<le> r" "r \<le> high"
    and piv: "l' ! nat r = list ! nat pivotIndex"
    and left: "\<forall>k. low \<le> int k \<and> int k < r \<longrightarrow> precedes D dim (l' ! k) (list ! nat pivotIndex)"
    and right: "\<forall>k. r < int k \<and> int k \<le> high \<longrightarrow> \<not> precedes D dim (l' ! k) (list ! nat pivotIndex)"
    by blast
  have L: "smallerDimVal D (l' ! nat k) (list ! nat pivotIndex) dim = Inr True"
    if "k \<in> {low..r - 1}" for k
    using left[rule_format, of "nat k"] that assms(1) by (simp add: precedes_def)
  have R: "smallerDimVal D (l' ! nat k) (list ! nat pivotIndex) dim = Inr False"
    if "k \<in> {r + 1..high}" for k
    using right[rule_format, of "nat k"] that assms(1) r
      smallerDimVal_total[OF assms(5), of D "l' ! nat k" "list ! nat pivotIndex"]
    by simp
  show ?thesis using res r piv L R by blast
qed

theorem partition_correct_witness:
  "partition_vec 3 [[5, 1, 1], [2, 2, 2], [9, 0, 0], [2, 0, 7], [7, 7, 7]] 0 4 1 0
     = Inr ([[2, 0, 7], [2, 2, 2], [9, 0, 0], [5, 1, 1], [7, 7, 7]], 1) \<and>
   smallerDimVal 3 [2, 0, 7] [2, 2, 2] 0 = Inr True \<and>
   smallerDimVal 3 [9, 0, 0] [2, 2, 2] 0 = Inr False"
proof -
  have run: "partition_vec 3 [[5, 1, 1], [2, 2, 2], [9, 0, 0], [2, 0, 7], [7, 7, 7]] 0 4 1 0
     = Inr ([[2, 0, 7], [2, 2, 2], [9, 0, 0], [5, 1, 1], [7, 7, 7]], 1)"
    by code_simp
  from partition_correct[of 0 1 4 "[[5, 1, 1], [2, 2, 2], [9, 0, 0], [2, 0, 7], [7, 7, 7]]" 0 3]
  obtain list' r where
    "partition_vec 3 [[5, 1, 1], [2, 2, 2], [9, 0, 0], [2, 0, 7], [7, 7, 7]] 0 4 1 0 = Inr (list', r)"
    "\<forall>k\<in>{0..r - 1}. smallerDimVal 3 (list' ! nat k) [2, 2, 2] 0 = Inr True"
    "\<forall>k\<in>{r + 1..4}. smallerDimVal 3 (list' ! nat k) [2, 2, 2] 0 = Inr False"
    by auto
  with run have "\<forall>k\<in>{0..1 - 1}. smallerDimVal 3
        ([[2, 0, 7], [2, 2, 2], [9, 0, 0], [5, 1, 1], [7, 7, 7]] ! nat k) [2, 2, 2] 0 = Inr True"
    and "\<forall>k\<in>{1 + 1..4}. smallerDimVal 3
        ([[2, 0, 7], [2, 2, 2], [9, 0, 0], [5, 1, 1], [7, 7, 7]] ! nat k) [2, 2, 2] 0 = Inr False"
    by simp_all
  from this(1)[THEN bspec, of 0] this(2)[THEN bspec, of 2] run show ?thesis by simp
qed

text \<open>
  Claim C5 (not met by the code). The claim: a query on a tree built from zero points
  fails with an explicit empty-tree condition. The constructor leaves \<open>points\<close> empty,
  \<open>nearestIndex(query, 0, -1, 0)\<close> returns 0, and \<open>findNearestNeighbor\<close> reads
  \<open>points[0]\<close> of the empty vector.
\<close>

theorem findNearestNeighbor_empty_tree_reads_out_of_range:
  "KDTree D [] = Some (Inr []) \<and> findNearestNeighbor D [] query = Inl (VectorIndex 0)"
  by (simp add: KDTree_def findNearestNeighbor_def nearestIndex.simps at_def)

text \<open>
  Claim C6 (not met by the code). The claim: the index \<open>nearestIndex\<close> returns for an
  exhausted range is never dereferenced. On the tree of the single point \<open>(1,2,3)\<close> the
  query \<open>(1,2,3)\<close> does not precede the median, the search of the range \<open>[1, 0]\<close>
  returns 1, and \<open>shouldReplace(query, points[1], points[0])\<close> reads \<open>points[1]\<close> of a
  vector of size 1.
\<close>

theorem nearestIndex_sentinel_is_dereferenced:
  "KDTree 3 [[1, 2, 3]] = Some (Inr [[1, 2, 3]]) \<and>
   nearestIndex 3 [[1, 2, 3]] [1, 2, 3] 1 0 1 = Inr 1 \<and>
   findNearestNeighbor 3 [[1, 2, 3]] [1, 2, 3] = Inl (VectorIndex 1)"
  by code_simp

text \<open>
  Claim C7 (not met by the code). The claim: for every dimension outside \<open>[0, D)\<close>,
  \<open>smallerDimVal\<close> logs an error and returns false without reading a coordinate. That
  holds for \<open>curDim \<ge> D\<close> (\<open>smallerDimVal_large_dimension\<close>); a negative \<open>curDim\<close>
  passes the guard, nothing is logged and the coordinate \<open>first[curDim]\<close> is read.
\<close>

theorem smallerDimVal_negative_dimension_reads_coordinate:
  "smallerDimVal 3 [1, 2, 3] [4, 5, 6] (- 1) = Inl (PointIndex (- 1)) \<and>
   smallerDimVal_log 3 (- 1) = []"
  by code_simp

text \<open>
  Claim C8. Construction returns for every input vector, and the recursion of
  \<open>nearestIndex\<close> is well-founded from every argument: \<open>nearestIndex_dom\<close> is the
  accessible part of its call relation.
\<close>

theorem construction_and_search_terminate:
  assumes "0 < D"
  shows "(\<exists>points. KDTree D newPoints = Some (Inr points)) \<and>
         nearestIndex_dom (D, points, query, low, high, dim)"
proof
  show "\<exists>points. KDTree D newPoints = Some (Inr points)"
    using KDTree_spec[OF assms, of newPoints] by auto
  have "All nearestIndex_dom"
    by (relation "measure (\<lambda>(D, points, query, low, high, dim). nat (high - low + 1))")
      (auto simp: int_div_def sgn_if split: if_splits)
  then show "nearestIndex_dom (D, points, query, low, high, dim)" by simp
qed

theorem construction_and_search_terminate_witness:
  "(0::nat) < 3 \<and>
   (\<exists>points. KDTree 3 [[9, 9, 9], [1, 1, 1], [5, 0, 5]] = Some (Inr points)) \<and>
   nearestIndex_dom (3, [[1, 1, 1], [5, 0, 5], [9, 9, 9]], [4, 4, 4], 0, 2, 0)"
  using construction_and_search_terminate[of 3 "[[9, 9, 9], [1, 1, 1], [5, 0, 5]]"
      "[[1, 1, 1], [5, 0, 5], [9, 9, 9]]" "[4, 4, 4]" 0 2 0]
  by simp

text \<open>
  Claim C9. With \<open>0 \<le> low \<le> n \<le> high < size\<close>, each of \<open>construct\<close>, \<open>select\<close> and
  \<open>partition\<close> returns, and what it returns is the list with the elements of
  \<open>[low, high]\<close> reordered: every element at an index outside the range is unchanged.
\<close>

theorem reordering_stays_in_range:
  assumes "0 < D" "0 \<le> dim" "0 \<le> low" "low \<le> n" "n \<le> high" "high < int (length list)"
  shows "(\<exists>list'. construct D list low high n dim = Some (Inr list') \<and>
            permutes_range list list' low high) \<and>
         (\<exists>list'. select D list low high n dim = Some (Inr list') \<and>
            permutes_range list list' low high) \<and>
         (\<exists>list' r. partition_vec D list low high n dim = Inr (list', r) \<and>
            permutes_range list list' low high)"
proof (intro conjI)
  show "\<exists>list'. construct D list low high n dim = Some (Inr list') \<and>
            permutes_range list list' low high"
    using construct_spec[of D dim low high list n] assms by auto
  show "\<exists>list'. select D list low high n dim = Some (Inr list') \<and>
            permutes_range list list' low high"
    using select_spec[OF assms(2-6), of D] by auto
  show "\<exists>list' r. partition_vec D list low high n dim = Inr (list', r) \<and>
            permutes_range list list' low high"
    using partition_spec[OF assms(2-6), of D] unfolding permutes_range_def by blast
qed

theorem reordering_stays_in_range_witness:
  "construct 3 [[7, 7, 7], [9, 9, 9], [5, 0, 5], [1, 1, 1], [0, 0, 0]] 1 3 2 0
     = Some (Inr [[7, 7, 7], [1, 1, 1], [5, 0, 5], [9, 9, 9], [0, 0, 0]]) \<and>
   (\<exists>list'. construct 3 [[7, 7, 7], [9, 9, 9], [5, 0, 5], [1, 1, 1], [0, 0, 0]] 1 3 2 0
        = Some (Inr list') \<and> list' ! 0 = [7, 7, 7] \<and> list' ! 4 = [0, 0, 0]) \<and>
   (\<exists>list'. select 3 [[7, 7, 7], [9, 9, 9], [5, 0, 5], [1, 1, 1], [0, 0, 0]] 1 3 2 0
        = Some (Inr list') \<and> list' ! 0 = [7, 7, 7] \<and> list' ! 4 = [0, 0, 0]) \<and>
   (\<exists>list' r. partition_vec 3 [[7, 7, 7], [9, 9, 9], [5, 0, 5], [1, 1, 1], [0, 0, 0]] 1 3 2 0
        = Inr (list', r) \<and> list' ! 0 = [7, 7, 7] \<and> list' ! 4 = [0, 0, 0])"
proof -
  have run: "construct 3 [[7, 7, 7], [9, 9, 9], [5, 0, 5], [1, 1, 1], [0, 0, 0]] 1 3 2 0
     = Some (Inr [[7, 7, 7], [1, 1, 1], [5, 0, 5], [9, 9, 9], [0, 0, 0]])"
    by code_simp
  have out: "list' ! 0 = [7, 7, 7] \<and> list' ! 4 = [0, 0, 0]"
    if "permutes_range [[7, 7, 7], [9, 9, 9], [5, 0, 5], [1, 1, 1], [0, 0, 0]] list' 1 3"
    for list' :: "point list"
    using permutes_range_outside[OF that, of 0] permutes_range_outside[OF that, of 4] by simp
  from reordering_stays_in_range[of 3 0 1 2 3
      "[[7, 7, 7], [9, 9, 9], [5, 0, 5], [1, 1, 1], [0, 0, 0]]"]
  show ?thesis using run out by auto
qed

text \<open>
  Claim C10. For every source image and non-empty tile list, \<open>mapTiles\<close> returns a
  canvas; it calls \<open>findNearestNeighbor\<close> once for each region, row by row; and the tile
  it sets at the region \<open>(i, j)\<close> is the one \<open>tileImages\<close> yields for the point the query
  of that region returned. This holds whatever values lie after the last point of the
  tree when a query reads there (\<open>beyond i j\<close>, any non-empty list).
\<close>

theorem mapTiles_sets_nearest_tiles:
  assumes "theTiles \<noteq> []" "\<forall>i j. beyond i j \<noteq> []"
  shows "\<exists>regionColors mosaic' queries.
           KDTree 3 (fst (mapTiles_tiles getAverageColor theTiles)) = Some (Inr regionColors) \<and>
           mapTiles dflt beyond getAverageColor theSource theTiles = Some (Inr (mosaic', queries)) \<and>
           queries = concat (map (\<lambda>i. map (\<lambda>j. (i, j)) [0..getColumns theSource - 1])
                               [0..getRows theSource - 1]) \<and>
           distinct queries \<and>
           (\<forall>i j. 0 \<le> i \<and> i < getRows theSource \<and> 0 \<le> j \<and> j < getColumns theSource \<longrightarrow>
              (\<exists>nearest.
                 findNearestNeighbor_beyond 3 regionColors (beyond i j)
                   (region_point theSource i j) = Inr nearest \<and>
                 tiles mosaic' (i, j) =
                   Some (tile_of dflt (snd (mapTiles_tiles getAverageColor theTiles)) nearest)))"
proof -
  obtain tileColors tileImages where tt:
    "mapTiles_tiles getAverageColor theTiles = (tileColors, tileImages)"
    by (cases "mapTiles_tiles getAverageColor theTiles") auto
  have "length tileColors = length theTiles"
    using mapTiles_tiles_length[of getAverageColor theTiles] by (simp add: tt)
  then have ne: "tileColors \<noteq> []" using assms(1) by auto
  obtain regionColors where tree: "KDTree 3 tileColors = Some (Inr regionColors)"
    and pr: "permutes_range tileColors regionColors 0 (int (length tileColors) - 1)"
    using KDTree_spec[of 3 tileColors] by auto
  have rc: "regionColors \<noteq> []"
    using permutes_range_length[OF pr] ne by auto
  define mosaic :: "'a MosaicCanvas" where
    "mosaic = \<lparr>canvasRows = getRows theSource, canvasColumns = getColumns theSource,
               tiles = Map.empty\<rparr>"
  obtain mosaic' ti' queries where rows:
    "mapTiles_rows dflt beyond theSource regionColors 0 (mosaic, tileImages, [])
       = Inr (mosaic', ti', queries)"
    using mapTiles_rows_returns[OF rc assms(2), of dflt theSource 0 "(mosaic, tileImages, [])"]
    by (metis prod_cases3)
  have run: "mapTiles dflt beyond getAverageColor theSource theTiles = Some (Inr (mosaic', queries))"
    using tree rows by (simp add: mapTiles_def tt Let_def mosaic_def)
  note W = mapTiles_wiring[OF run]
  have q: "queries = concat (map (\<lambda>i. map (\<lambda>j. (i, j)) [0..getColumns theSource - 1])
                               [0..getRows theSource - 1])"
    using W by simp
  have d: "distinct queries"
    unfolding q by (intro distinct_regions) simp_all
  show ?thesis
    using tree run q d W by (simp add: tt)
qed

theorem mapTiles_sets_nearest_tiles_witness:
  "\<exists>mosaic'.
     mapTiles (0::nat) (\<lambda>i j. [[9, 9, 9]]) (\<lambda>t. \<lparr>red = 1, green = 2, blue = 3\<rparr>)
       \<lparr>getRows = 1, getColumns = 1,
        getRegionColor = (\<lambda>i j. \<lparr>red = 1, green = 2, blue = 3\<rparr>)\<rparr> [7]
       = Some (Inr (mosaic', [(0, 0)])) \<and>
     tiles mosaic' (0, 0) = Some 7"
proof -
  define src where "src = \<lparr>getRows = 1, getColumns = 1,
        getRegionColor = (\<lambda>i j. \<lparr>red = 1, green = 2, blue = 3\<rparr>)\<rparr>"
  define gac :: "nat \<Rightarrow> RGBAPixel" where "gac = (\<lambda>t. \<lparr>red = 1, green = 2, blue = 3\<rparr>)"
  have tt: "mapTiles_tiles gac [7::nat] = ([[1, 2, 3]], [[1, 2, 3] \<mapsto> 7])"
    by (simp add: mapTiles_tiles_def gac_def Let_def)
  have tree: "KDTree 3 [[1, 2, 3]] = Some (Inr [[1, 2, 3]])"
    by code_simp
  have query: "findNearestNeighbor_beyond 3 [[1, 2, 3]] [[9, 9, 9]] [1, 2, 3] = Inr [1, 2, 3]"
    by code_simp
  have up: "[0..(0::int)] = [0]"
    by code_simp
  have rp: "region_point src 0 0 = [1, 2, 3]"
    by (simp add: region_point_def src_def)
  from mapTiles_sets_nearest_tiles[of "[7::nat]" "\<lambda>i j. [[9, 9, 9]]" gac 0 src]
  obtain regionColors mosaic' queries where
    t: "KDTree 3 [[1, 2, 3]] = Some (Inr regionColors)"
    and run: "mapTiles 0 (\<lambda>i j. [[9, 9, 9]]) gac src [7] = Some (Inr (mosaic', queries))"
    and q: "queries = [(0, 0)]"
    and w: "\<forall>i j. 0 \<le> i \<and> i < 1 \<and> 0 \<le> j \<and> j < 1 \<longrightarrow>
              (\<exists>nearest.
                 findNearestNeighbor_beyond 3 regionColors [[9, 9, 9]] (region_point src i j)
                   = Inr nearest \<and>
                 tiles mosaic' (i, j) = Some (tile_of 0 [[1, 2, 3] \<mapsto> 7] nearest))"
    by (auto simp: tt up src_def)
  have "regionColors = [[1, 2, 3]]" using t tree by simp
  with w[rule_format, of 0 0] query rp have "tiles mosaic' (0, 0) = Some 7"
    by (simp add: tile_of_def)
  with run q show ?thesis by (auto simp: gac_def src_def)
qed

end
